theory Spec2Isabelle
  imports Main "HOL-Library.AList"
begin

section \<open>JavaScript strings\<close>

text \<open>
  A JavaScript string is a sequence of UTF-16 code units. A code unit is modelled as a
  natural number; the Korean labels and messages of the source are written as their code
  units. \<open>ascii\<close> turns an ASCII literal into its code units.
\<close>

type_synonym jsstring = "nat list"

definition ascii :: "string \<Rightarrow> jsstring" where
  "ascii s = map of_char s"

text \<open>
  \<open>String.prototype.trim\<close> removes the code units of the ECMAScript productions
  WhiteSpace and LineTerminator from both ends.
\<close>

definition isWhiteSpace :: "nat \<Rightarrow> bool" where
  "isWhiteSpace c \<longleftrightarrow>
     c \<in> set [9, 10, 11, 12, 13, 32, 160, 5760, 8232, 8233, 8239, 8287, 12288, 65279]
     \<or> (8192 \<le> c \<and> c \<le> 8202)"

definition trim :: "jsstring \<Rightarrow> jsstring" where
  "trim s = rev (dropWhile isWhiteSpace (rev (dropWhile isWhiteSpace s)))"

text \<open>\<open>text.split('\n')\<close>: the pieces between line feeds; never the empty list.\<close>

fun split_nl :: "jsstring \<Rightarrow> jsstring list" where
  "split_nl [] = [[]]"
| "split_nl (c # cs) =
     (if c = 10 then [] # split_nl cs
      else (case split_nl cs of [] \<Rightarrow> [[c]] | l # ls \<Rightarrow> (c # l) # ls))"

text \<open>\<open>s.startsWith(p)\<close> and \<open>s.includes(p)\<close> (here \<open>includes_str\<close>), on code units.\<close>

fun startsWith :: "jsstring \<Rightarrow> jsstring \<Rightarrow> bool" where
  "startsWith s [] = True"
| "startsWith [] (p # ps) = False"
| "startsWith (c # cs) (p # ps) = (c = p \<and> startsWith cs ps)"

fun includes_str :: "jsstring \<Rightarrow> jsstring \<Rightarrow> bool" where
  "includes_str [] p = (p = [])"
| "includes_str (c # cs) p = (startsWith (c # cs) p \<or> includes_str cs p)"

text \<open>
  \<open>toLowerCase\<close> on the ASCII letters. The source only asks whether the lowered line
  starts with the ASCII word \<open>video\<close>, and no code unit outside \<open>A\<close>..\<open>Z\<close> is lowered
  to a letter of that word followed by the next one, so the other code units are left as
  they are.
\<close>

definition toLowerCase :: "jsstring \<Rightarrow> jsstring" where
  "toLowerCase s = map (\<lambda>c. if 65 \<le> c \<and> c \<le> 90 then c + 32 else c) s"

text \<open>\<open>counter.toString()\<close>: the decimal digits of a non-negative integer.\<close>

fun toString :: "nat \<Rightarrow> jsstring" where
  "toString n = (if n < 10 then [48 + n] else toString (n div 10) @ [48 + n mod 10])"

declare toString.simps [simp del]

text \<open>
  \<open>s.replace(/^(A|B|...)/, '')\<close>: the first alternative, in the order written, that is a
  prefix of \<open>s\<close> is removed; \<open>s\<close> is returned as it is when none matches.
\<close>

fun replace_prefix :: "jsstring list \<Rightarrow> jsstring \<Rightarrow> jsstring" where
  "replace_prefix [] s = s"
| "replace_prefix (a # as) s =
     (if startsWith s a then drop (length a) s else replace_prefix as s)"

text \<open>A string read in a condition is truthy when it is present and not empty.\<close>

fun truthy_str :: "jsstring option \<Rightarrow> bool" where
  "truthy_str None = False"
| "truthy_str (Some s) = (s \<noteq> [])"

section \<open>Video candidates (types.ts) and parseVideoResponse\<close>

text \<open>
  \<open>Partial<VideoRecommendation>\<close> is the accumulator of the parser: every field may be
  absent (\<open>None\<close> is \<open>undefined\<close>). The objects pushed are \<open>{...currentVideo, id}\<close>: the
  fields the accumulator has, and an id; the cast to \<open>VideoRecommendation\<close> adds nothing
  at run time, so \<open>channel\<close> and \<open>description\<close> stay optional in the model.
\<close>

record PartialVideo =
  title :: "jsstring option"
  channel :: "jsstring option"
  url :: "jsstring option"
  description :: "jsstring option"

record VideoRecommendation = PartialVideo +
  id_no :: int

definition emptyVideo :: PartialVideo where
  "emptyVideo = \<lparr>title = None, channel = None, url = None, description = None\<rparr>"

definition with_id :: "PartialVideo \<Rightarrow> int \<Rightarrow> VideoRecommendation" where
  "with_id cur n =
     \<lparr>title = title cur, channel = channel cur, url = url cur,
      description = description cur, id_no = n\<rparr>"

definition L_Title :: "jsstring list" where
  "L_Title = [ascii ''Title:'', [51228, 47785, 58]]"

definition L_Channel :: "jsstring list" where
  "L_Channel = [ascii ''Channel:'', [52292, 45328, 58]]"

definition L_URL :: "jsstring list" where
  "L_URL = [ascii ''URL:'', ascii ''Link:'', [47553, 53356, 58]]"

definition L_Description :: "jsstring list" where
  "L_Description = [ascii ''Description:'', [49444, 47749, 58]]"

definition startsWithAny :: "jsstring \<Rightarrow> jsstring list \<Rightarrow> bool" where
  "startsWithAny s ls = list_ex (startsWith s) ls"

definition isMarker :: "nat \<Rightarrow> jsstring \<Rightarrow> bool" where
  "isMarker counter cleanLine \<longleftrightarrow>
     startsWith (toLowerCase cleanLine) (ascii ''video'')
     \<and> (includes_str cleanLine (toString counter) \<or> length cleanLine < 10)"

definition complete :: "PartialVideo \<Rightarrow> bool" where
  "complete cur \<longleftrightarrow> truthy_str (title cur) \<and> truthy_str (url cur)"

text \<open>
  The loop state is \<open>(videos, currentVideo, counter)\<close>; \<open>step_line\<close> is one iteration
  of \<open>for (const line of lines)\<close>.
\<close>

type_synonym scan = "VideoRecommendation list \<times> PartialVideo \<times> nat"

fun step_line :: "scan \<Rightarrow> jsstring \<Rightarrow> scan" where
  "step_line (vs, cur, counter) line =
     (let cleanLine = trim line in
      if isMarker counter cleanLine then
        (if complete cur
         then (vs @ [with_id cur (int counter - 1)], emptyVideo, counter + 1)
         else (vs, cur, counter + 1))
      else if startsWithAny cleanLine L_Title then
        (vs, cur\<lparr>title := Some (trim (replace_prefix L_Title cleanLine))\<rparr>, counter)
      else if startsWithAny cleanLine L_Channel then
        (vs, cur\<lparr>channel := Some (trim (replace_prefix L_Channel cleanLine))\<rparr>, counter)
      else if startsWithAny cleanLine L_URL then
        (vs, cur\<lparr>url := Some (trim (replace_prefix L_URL cleanLine))\<rparr>, counter)
      else if startsWithAny cleanLine L_Description then
        (vs, cur\<lparr>description := Some (trim (replace_prefix L_Description cleanLine))\<rparr>,
         counter)
      else (vs, cur, counter))"

definition scan_lines :: "jsstring list \<Rightarrow> scan" where
  "scan_lines ls = foldl step_line ([], emptyVideo, 1) ls"

text \<open>The push after the loop.\<close>

fun push_last :: "scan \<Rightarrow> VideoRecommendation list" where
  "push_last (vs, cur, counter) =
     (if complete cur then vs @ [with_id cur (int counter - 1)] else vs)"

text \<open>\<open>.map((v, i) => ({...v, id: i + 1}))\<close>, with the index of the first element given.\<close>

fun renumber :: "nat \<Rightarrow> VideoRecommendation list \<Rightarrow> VideoRecommendation list" where
  "renumber i [] = []"
| "renumber i (v # vs) = v\<lparr>id_no := int i + 1\<rparr> # renumber (Suc i) vs"

definition parseVideoResponse :: "jsstring \<Rightarrow> VideoRecommendation list" where
  "parseVideoResponse text = renumber 0 (take 5 (push_last (scan_lines (split_nl text))))"

section \<open>Outcome of a request to the generative-content service\<close>

text \<open>
  Each service function awaits one \<open>ai.models.generateContent\<close> call inside \<open>try\<close>.
  The call is the collaborator; what it did is an input of the model: it threw, or it
  returned a response. Every \<open>catch\<close> of the service throws a new \<open>Error\<close> with a fixed
  message, modelled as \<open>Inl message\<close>.
\<close>

datatype 'a outcome = Throws | Returns 'a

definition SEARCH_ERR :: jsstring where
  "SEARCH_ERR = [48708, 46356, 50724, 47484, 32, 44160, 49353, 54616, 45716, 32, 51473, 32,
     50724, 47448, 44032, 32, 48156, 49373, 54664, 49845, 45768, 45796, 46]"

definition ANALYZE_ERR :: jsstring where
  "ANALYZE_ERR = [48708, 46356, 50724, 32, 48516, 49437, 32, 48143, 32, 49688, 54665, 54217,
     44032, 32, 51228, 50504, 32, 51473, 32, 50724, 47448, 44032, 32, 48156, 49373, 54664,
     49845, 45768, 45796, 46]"

definition PLAN_ERR :: jsstring where
  "PLAN_ERR = [49688, 50629, 32, 51648, 46020, 50504, 32, 49373, 49457, 32, 51473, 32, 50724,
     47448, 44032, 32, 48156, 49373, 54664, 49845, 45768, 45796, 46]"

text \<open>The literal returned by \<open>generateLessonPlan\<close> when the response text is falsy.\<close>

definition PLAN_FALLBACK :: jsstring where
  "PLAN_FALLBACK = [49688, 50629, 32, 51648, 46020, 50504, 51012, 32, 49373, 49457, 54616,
     51648, 32, 47803, 54664, 49845, 45768, 45796, 46]"

text \<open>\<open>searchVideos\<close>: the input is the outcome of the call, a response carrying \<open>text\<close>
  (\<open>None\<close> when the response has no text); \<open>response.text || ""\<close> is parsed.\<close>

definition searchVideos :: "jsstring option outcome \<Rightarrow> jsstring + VideoRecommendation list" where
  "searchVideos response =
     (case response of
        Throws \<Rightarrow> Inl SEARCH_ERR
      | Returns text \<Rightarrow>
          Inr (parseVideoResponse (case text of None \<Rightarrow> [] | Some t \<Rightarrow> t)))"

section \<open>JSON values and analyzeVideoAndSuggest\<close>

text \<open>
  The value \<open>JSON.parse\<close> returns. An object is the list of its members; a member is read
  with \<open>map_of\<close> and written with \<open>AList.update\<close>, so the first entry of a key is the
  one that counts throughout. Numbers are the integers (the schema asks for integer ids;
  only whether a number is zero is read from the incoming data).
\<close>

datatype json =
    JNull
  | JBool bool
  | JNum int
  | JStr jsstring
  | JArr "json list"
  | JObj "(jsstring \<times> json) list"

type_synonym jsobject = "(jsstring \<times> json) list"

text \<open>JavaScript truthiness of a JSON value, as \<open>||\<close> reads it.\<close>

fun truthy :: "json \<Rightarrow> bool" where
  "truthy JNull = False"
| "truthy (JBool b) = b"
| "truthy (JNum n) = (n \<noteq> 0)"
| "truthy (JStr s) = (s \<noteq> [])"
| "truthy (JArr xs) = True"
| "truthy (JObj m) = True"

text \<open>
  \<open>data.name\<close> on a value other than \<open>null\<close>, for the names read by the source
  (\<open>assessments\<close>, \<open>summary\<close>, \<open>id\<close>, \<open>title\<close>, \<open>description\<close>), none of which is an
  index or \<open>length\<close>: the member of an object, \<open>undefined\<close> (\<open>None\<close>) otherwise.
\<close>

fun member_of :: "json \<Rightarrow> jsstring \<Rightarrow> json option" where
  "member_of (JObj m) k = map_of m k"
| "member_of _ k = None"

text \<open>
  Object spread \<open>{...a}\<close>: the own enumerable properties of \<open>a\<close>. An object gives its
  members, an array and a string their indexed elements, anything else nothing.
\<close>

fun indexed :: "nat \<Rightarrow> json list \<Rightarrow> jsobject" where
  "indexed i [] = []"
| "indexed i (x # xs) = (toString i, x) # indexed (Suc i) xs"

fun spread :: "json \<Rightarrow> jsobject" where
  "spread (JObj m) = m"
| "spread (JArr xs) = indexed 0 xs"
| "spread (JStr s) = indexed 0 (map (\<lambda>c. JStr [c]) s)"
| "spread _ = []"

definition K_id :: jsstring where
  "K_id = ascii ''id''"

definition K_title :: jsstring where
  "K_title = ascii ''title''"

definition K_description :: jsstring where
  "K_description = ascii ''description''"

definition K_summary :: jsstring where
  "K_summary = ascii ''summary''"

definition K_assessments :: jsstring where
  "K_assessments = ascii ''assessments''"

text \<open>\<open>.map((a, index) => ({...a, id: index + 1}))\<close>, with the index of the first element.\<close>

fun resequence :: "nat \<Rightarrow> json list \<Rightarrow> jsobject list" where
  "resequence index [] = []"
| "resequence index (a # as) =
     AList.update K_id (JNum (int index + 1)) (spread a) # resequence (Suc index) as"

text \<open>The object returned: \<open>summary\<close> is \<open>data.summary\<close> as it is, absent when absent.\<close>

record VideoAnalysis =
  summary :: "json option"
  assessments :: "jsobject list"

text \<open>
  \<open>analyzeVideoAndSuggest\<close> from \<open>const data = JSON.parse(jsonText)\<close> on. The input is
  the outcome of the call and of \<open>JSON.parse(response.text || "{}")\<close>: \<open>Throws\<close> when
  either throws, the parsed value otherwise. Reading a property of \<open>null\<close> and calling
  \<open>.map\<close> on a value that is not an array throw a TypeError inside the same \<open>try\<close>.
\<close>

definition analyzeVideoAndSuggest :: "json outcome \<Rightarrow> jsstring + VideoAnalysis" where
  "analyzeVideoAndSuggest parsed =
     (case parsed of
        Throws \<Rightarrow> Inl ANALYZE_ERR
      | Returns data \<Rightarrow>
          (if data = JNull then Inl ANALYZE_ERR
           else
             (case (case member_of data K_assessments of
                      None \<Rightarrow> JArr []
                    | Some v \<Rightarrow> if truthy v then v else JArr []) of
                JArr xs \<Rightarrow>
                  Inr \<lparr>summary = member_of data K_summary, assessments = resequence 0 xs\<rparr>
              | _ \<Rightarrow> Inl ANALYZE_ERR)))"

section \<open>generateLessonPlan\<close>

definition generateLessonPlan :: "jsstring option outcome \<Rightarrow> jsstring + jsstring" where
  "generateLessonPlan response =
     (case response of
        Throws \<Rightarrow> Inl PLAN_ERR
      | Returns text \<Rightarrow>
          Inr (case text of
                 None \<Rightarrow> PLAN_FALLBACK
               | Some t \<Rightarrow> if t = [] then PLAN_FALLBACK else t))"

section \<open>The step flow of App.tsx\<close>

text \<open>\<open>AppStep\<close> is a numeric enum; \<open>goBack\<close> computes \<open>step - 1\<close> on it.\<close>

abbreviation (input) INPUT_TOPIC :: nat where
  "INPUT_TOPIC \<equiv> 0"

abbreviation (input) SELECT_VIDEO :: nat where
  "SELECT_VIDEO \<equiv> 1"

abbreviation (input) SELECT_ASSESSMENT :: nat where
  "SELECT_ASSESSMENT \<equiv> 2"

abbreviation (input) VIEW_PLAN :: nat where
  "VIEW_PLAN \<equiv> 3"

text \<open>
  The \<open>useState\<close> cells of the component. \<open>error\<close> is \<open>string | null\<close>; the selections
  are an object or \<open>null\<close>; \<open>videoSummary\<close> holds whatever \<open>result.summary\<close> was. The
  list of assessments is \<open>assessments_s\<close> here (\<open>assessments\<close> is the field of
  \<open>VideoAnalysis\<close>).
\<close>

record AppState =
  step :: nat
  topic :: jsstring
  isLoading :: bool
  error :: "jsstring option"
  videos :: "VideoRecommendation list"
  selectedVideo :: "VideoRecommendation option"
  videoSummary :: "json option"
  assessments_s :: "jsobject list"
  selectedAssessment :: "jsobject option"
  lessonPlan :: jsstring

definition initialState :: AppState where
  "initialState =
     \<lparr>step = INPUT_TOPIC, topic = [], isLoading = False, error = None, videos = [],
      selectedVideo = None, videoSummary = Some (JStr []), assessments_s = [],
      selectedAssessment = None, lessonPlan = []\<rparr>"

definition MSG_NO_RESULTS :: jsstring where
  "MSG_NO_RESULTS = [44288, 47144, 32, 50689, 49345, 51012, 32, 52286, 51012, 32, 49688, 32,
     50630, 49845, 45768, 45796, 46, 32, 45796, 47480, 32, 51452, 51228, 47196, 32, 49884,
     46020, 54644, 48372, 49464, 50836, 46]"

definition MSG_SEARCH :: jsstring where
  "MSG_SEARCH = [48708, 46356, 50724, 32, 44160, 49353, 32, 51473, 32, 50724, 47448, 44032,
     32, 48156, 49373, 54664, 49845, 45768, 45796, 46, 32, 51104, 49884, 32, 54980, 32, 45796,
     49884, 32, 49884, 46020, 54644, 51452, 49464, 50836, 46]"

definition MSG_ANALYZE :: jsstring where
  "MSG_ANALYZE = [50689, 49345, 32, 48516, 49437, 50640, 32, 49892, 54056, 54664, 49845,
     45768, 45796, 46]"

definition MSG_PLAN :: jsstring where
  "MSG_PLAN = [49688, 50629, 32, 51648, 46020, 50504, 32, 49373, 49457, 50640, 32, 49892,
     54056, 54664, 49845, 45768, 45796, 46]"

text \<open>
  A handler runs from its first line to the end of \<open>finally\<close> in one step: the outcome of
  the awaited request is its argument, and \<open>isLoading\<close> is back to \<open>false\<close> when it ends.
\<close>

definition handleTopicSubmit :: "jsstring option outcome \<Rightarrow> AppState \<Rightarrow> AppState" where
  "handleTopicSubmit response s =
     (if trim (topic s) = [] then s
      else
        (case searchVideos response of
           Inr results \<Rightarrow>
             (if length results = 0
              then s\<lparr>error := Some MSG_NO_RESULTS, isLoading := False\<rparr>
              else s\<lparr>error := None, videos := results, step := SELECT_VIDEO,
                     isLoading := False\<rparr>)
         | Inl err \<Rightarrow> s\<lparr>error := Some MSG_SEARCH, isLoading := False\<rparr>))"

definition handleVideoSelect :: "json outcome \<Rightarrow> AppState \<Rightarrow> AppState" where
  "handleVideoSelect parsed s =
     (case selectedVideo s of
        None \<Rightarrow> s
      | Some v \<Rightarrow>
          (case analyzeVideoAndSuggest parsed of
             Inr result \<Rightarrow>
               s\<lparr>error := None, videoSummary := summary result,
                  assessments_s := assessments result, step := SELECT_ASSESSMENT,
                  isLoading := False\<rparr>
           | Inl err \<Rightarrow> s\<lparr>error := Some MSG_ANALYZE, isLoading := False\<rparr>))"

definition handleAssessmentSelect :: "jsstring option outcome \<Rightarrow> AppState \<Rightarrow> AppState" where
  "handleAssessmentSelect response s =
     (if selectedAssessment s = None \<or> selectedVideo s = None then s
      else
        (case generateLessonPlan response of
           Inr plan \<Rightarrow>
             s\<lparr>error := None, lessonPlan := plan, step := VIEW_PLAN, isLoading := False\<rparr>
         | Inl err \<Rightarrow> s\<lparr>error := Some MSG_PLAN, isLoading := False\<rparr>))"

text \<open>\<open>resetApp\<close>: the argument is the answer of the \<open>confirm\<close> dialog.\<close>

definition resetApp :: "bool \<Rightarrow> AppState \<Rightarrow> AppState" where
  "resetApp confirmed s =
     (if confirmed
      then s\<lparr>step := INPUT_TOPIC, topic := [], videos := [], selectedVideo := None,
             assessments_s := [], selectedAssessment := None, lessonPlan := [],
             error := None\<rparr>
      else s)"

definition goBack :: "AppState \<Rightarrow> AppState" where
  "goBack s =
     (let s1 = s\<lparr>error := None\<rparr>
      in if step s > 0 then s1\<lparr>step := step s - 1\<rparr> else s1)"

subsection \<open>What the rendered page lets the user do\<close>

text \<open>
  The handlers are closures of the component; they run only through the controls that
  \<open>return (...)\<close> renders. \<open>offered s e\<close> says that the page rendered from \<open>s\<close> has the
  control of \<open>e\<close>: the topic form on step 0; the cards of \<open>videos\<close>, the back button and
  the (enabled) next button on step 1; the same for assessments on step 2; no back
  button on step 3; the reset button of the header on every step but 0; the close button
  of the error banner while there is an error. The main area is replaced by the spinner
  while \<open>isLoading\<close>.
\<close>

datatype event =
    SetTopic jsstring
  | SubmitTopic "jsstring option outcome"
  | SelectVideo VideoRecommendation
  | ConfirmVideo "json outcome"
  | SelectAssessment jsobject
  | ConfirmAssessment "jsstring option outcome"
  | GoBack
  | Reset bool
  | DismissError

fun offered :: "AppState \<Rightarrow> event \<Rightarrow> bool" where
  "offered s (SetTopic t) = (\<not> isLoading s \<and> step s = INPUT_TOPIC)"
| "offered s (SubmitTopic r) = (\<not> isLoading s \<and> step s = INPUT_TOPIC)"
| "offered s (SelectVideo v) = (\<not> isLoading s \<and> step s = SELECT_VIDEO \<and> v \<in> set (videos s))"
| "offered s (ConfirmVideo r) =
     (\<not> isLoading s \<and> step s = SELECT_VIDEO \<and> selectedVideo s \<noteq> None)"
| "offered s (SelectAssessment a) =
     (\<not> isLoading s \<and> step s = SELECT_ASSESSMENT \<and> a \<in> set (assessments_s s))"
| "offered s (ConfirmAssessment r) =
     (\<not> isLoading s \<and> step s = SELECT_ASSESSMENT \<and> selectedAssessment s \<noteq> None)"
| "offered s GoBack =
     (\<not> isLoading s \<and> (step s = SELECT_VIDEO \<or> step s = SELECT_ASSESSMENT))"
| "offered s (Reset c) = (step s > INPUT_TOPIC)"
| "offered s DismissError = (error s \<noteq> None)"

fun fire :: "event \<Rightarrow> AppState \<Rightarrow> AppState" where
  "fire (SetTopic t) s = s\<lparr>topic := t\<rparr>"
| "fire (SubmitTopic r) s = handleTopicSubmit r s"
| "fire (SelectVideo v) s = s\<lparr>selectedVideo := Some v\<rparr>"
| "fire (ConfirmVideo r) s = handleVideoSelect r s"
| "fire (SelectAssessment a) s = s\<lparr>selectedAssessment := Some a\<rparr>"
| "fire (ConfirmAssessment r) s = handleAssessmentSelect r s"
| "fire GoBack s = goBack s"
| "fire (Reset c) s = resetApp c s"
| "fire DismissError s = s\<lparr>error := None\<rparr>"

text \<open>A session: the events in order, each one offered by the page it meets.\<close>

fun run :: "event list \<Rightarrow> AppState \<Rightarrow> AppState option" where
  "run [] s = Some s"
| "run (e # es) s = (if offered s e then run es (fire e s) else None)"

text \<open>
  The invariant of the pipeline state: a selected video has the id of a candidate of
  \<open>videos\<close>, a selected assessment the id of an element of the assessments, and a plan is
  there on the last step only.
\<close>

definition selectedVideo_ok :: "AppState \<Rightarrow> bool" where
  "selectedVideo_ok s =
     (case selectedVideo s of
        None \<Rightarrow> True
      | Some v \<Rightarrow> list_ex (\<lambda>c. id_no c = id_no v) (videos s))"

definition selectedAssessment_ok :: "AppState \<Rightarrow> bool" where
  "selectedAssessment_ok s =
     (case selectedAssessment s of
        None \<Rightarrow> True
      | Some a \<Rightarrow> list_ex (\<lambda>c. map_of c K_id = map_of a K_id) (assessments_s s))"

definition plan_ok :: "AppState \<Rightarrow> bool" where
  "plan_ok s = (lessonPlan s = [] \<or> step s = VIEW_PLAN)"

definition invariant :: "AppState \<Rightarrow> bool" where
  "invariant s = (selectedVideo_ok s \<and> selectedAssessment_ok s \<and> plan_ok s)"

text \<open>
  What holds besides the invariant as long as the user never goes back: no selection on
  step 0, no selected assessment on step 1.
\<close>

definition forward_ok :: "AppState \<Rightarrow> bool" where
  "forward_ok s \<longleftrightarrow>
     invariant s
     \<and> (step s = INPUT_TOPIC \<longrightarrow> selectedVideo s = None \<and> selectedAssessment s = None)
     \<and> (step s = SELECT_VIDEO \<longrightarrow> selectedAssessment s = None)"

section \<open>Predicates of the statements\<close>

text \<open>
  \<open>from_line labels lines x\<close>: the optional field \<open>x\<close> is absent, or it is the value
  of one of the \<open>lines\<close> that starts with one of the \<open>labels\<close>: what is left of the
  trimmed line after the label, trimmed.
\<close>

definition from_line :: "jsstring list \<Rightarrow> jsstring list \<Rightarrow> jsstring option \<Rightarrow> bool" where
  "from_line labels lines x =
     (case x of
        None \<Rightarrow> True
      | Some s \<Rightarrow>
          list_ex (\<lambda>l. startsWithAny (trim l) labels
                        \<and> s = trim (replace_prefix labels (trim l))) lines)"

text \<open>A line that is neither a channel line nor a description line.\<close>

definition other_line :: "jsstring \<Rightarrow> bool" where
  "other_line l \<longleftrightarrow>
     \<not> startsWithAny (trim l) L_Channel \<and> \<not> startsWithAny (trim l) L_Description"

text \<open>What a loop state holds besides channels and descriptions.\<close>

fun outline :: "scan \<Rightarrow> (int \<times> jsstring option \<times> jsstring option) list
    \<times> jsstring option \<times> jsstring option \<times> nat" where
  "outline (vs, cur, n) = (map (\<lambda>v. (id_no v, title v, url v)) vs, title cur, url cur, n)"

section \<open>Example inputs\<close>

text \<open>Two responses of the search, a parsed response of the analysis, and the candidates
  the first two parse to.\<close>

definition two_videos_text :: jsstring where
  "two_videos_text =
     ascii ''Video 1\<newline>Title: A\<newline>URL: U\<newline>Video 2\<newline>Title: B\<newline>URL: V''"

definition one_video_text :: jsstring where
  "one_video_text = ascii ''Title: C\<newline>URL: W''"

definition video_A :: VideoRecommendation where
  "video_A = \<lparr>title = Some (ascii ''A''), channel = None, url = Some (ascii ''U''),
     description = None, id_no = 1\<rparr>"

definition video_B :: VideoRecommendation where
  "video_B = \<lparr>title = Some (ascii ''B''), channel = None, url = Some (ascii ''V''),
     description = None, id_no = 2\<rparr>"

definition video_C :: VideoRecommendation where
  "video_C = \<lparr>title = Some (ascii ''C''), channel = None, url = Some (ascii ''W''),
     description = None, id_no = 1\<rparr>"

text \<open>The same two blocks under markers that carry other numbers.\<close>

definition odd_numbering_text :: jsstring where
  "odd_numbering_text =
     ascii ''Video 7\<newline>Title: A\<newline>URL: U\<newline>Video 9\<newline>Title: B\<newline>URL: V''"

text \<open>A block without channel line, then a block with one.\<close>

definition none_then_channel_text :: jsstring where
  "none_then_channel_text =
     ascii ''Video 1\<newline>Title: A\<newline>URL: U\<newline>Video 2\<newline>Title: B\<newline>Channel: K\<newline>URL: V''"

text \<open>A block without URL, then a block without channel.\<close>

definition no_url_then_no_channel_text :: jsstring where
  "no_url_then_no_channel_text =
     ascii ''Video 1\<newline>Title: A\<newline>Channel: B\<newline>Video 2\<newline>Title: C\<newline>URL: U''"

text \<open>
  A value as it stands after its label on a line of the response: not empty, no line feed
  in it, no white space at either end.
\<close>

definition clean_value :: "jsstring \<Rightarrow> bool" where
  "clean_value x \<longleftrightarrow>
     x \<noteq> [] \<and> 10 \<notin> set x \<and> \<not> isWhiteSpace (hd x) \<and> \<not> isWhiteSpace (last x)"

text \<open>\<open>{"summary":"x","assessments":[{"title":"a","description":"b"},
  {"title":"c","description":"d"}]}\<close>\<close>

definition analysis_json :: json where
  "analysis_json =
     JObj [(K_summary, JStr (ascii ''x'')),
           (K_assessments,
            JArr [JObj [(K_title, JStr (ascii ''a'')), (K_description, JStr (ascii ''b''))],
                  JObj [(K_title, JStr (ascii ''c'')), (K_description, JStr (ascii ''d''))]])]"

section \<open>Evaluation rules\<close>

text \<open>The equation of \<open>toString\<close> as two conditional rules, so that rewriting stops.\<close>

lemma toString_small: "n < 10 \<Longrightarrow> toString n = [48 + n]"
  by (simp add: toString.simps)

lemma toString_large: "\<not> n < 10 \<Longrightarrow> toString n = toString (n div 10) @ [48 + n mod 10]"
  by (subst toString.simps) simp

lemmas string_eval = ascii_def trim_def isWhiteSpace_def toLowerCase_def toString_small toString_large

lemmas parse_eval = parseVideoResponse_def scan_lines_def isMarker_def startsWithAny_def
  L_Title_def L_Channel_def L_URL_def L_Description_def complete_def with_id_def emptyVideo_def

lemmas key_eval = K_id_def K_title_def K_description_def K_summary_def K_assessments_def

lemmas flow_eval = handleTopicSubmit_def handleVideoSelect_def handleAssessmentSelect_def
  resetApp_def goBack_def searchVideos_def initialState_def

text \<open>The example inputs, evaluated.\<close>

lemma two_videos_parsed: "parseVideoResponse two_videos_text = [video_A, video_B]"
  by (simp add: two_videos_text_def video_A_def video_B_def parse_eval string_eval)

lemma one_video_parsed: "parseVideoResponse one_video_text = [video_C]"
  by (simp add: one_video_text_def video_C_def parse_eval string_eval)

lemma odd_numbering_parsed: "parseVideoResponse odd_numbering_text = [video_A, video_B]"
  by (simp add: odd_numbering_text_def video_A_def video_B_def parse_eval string_eval)

lemma none_then_channel_parsed:
  "parseVideoResponse none_then_channel_text =
     [video_A, \<lparr>title = Some (ascii ''B''), channel = Some (ascii ''K''),
                 url = Some (ascii ''V''), description = None, id_no = 2\<rparr>]"
  by (simp add: none_then_channel_text_def video_A_def parse_eval string_eval)

lemma analysis_json_result:
  "analyzeVideoAndSuggest (Returns analysis_json) =
     Inr \<lparr>summary = Some (JStr (ascii ''x'')),
          assessments =
            [[(K_title, JStr (ascii ''a'')), (K_description, JStr (ascii ''b'')), (K_id, JNum 1)],
             [(K_title, JStr (ascii ''c'')), (K_description, JStr (ascii ''d'')), (K_id, JNum 2)]]\<rparr>"
  by (simp add: analyzeVideoAndSuggest_def analysis_json_def key_eval ascii_def)

section \<open>parseVideoResponse: bounds and numbering\<close>

lemma truthy_str_iff: "truthy_str x \<longleftrightarrow> (\<exists>t. x = Some t \<and> t \<noteq> [])"
  by (cases x) simp_all

lemma step_line_videos:
  assumes "step_line (vs, cur, n) line = (vs', cur', n')"
  shows "vs' = vs \<or> (complete cur \<and> vs' = vs @ [with_id cur (int n - 1)] \<and> cur' = emptyVideo)"
  using assms by (auto simp: Let_def split: if_splits)

lemma with_id_titled:
  "complete cur \<Longrightarrow>
     (\<exists>t. title (with_id cur k) = Some t \<and> t \<noteq> [])
     \<and> (\<exists>u. url (with_id cur k) = Some u \<and> u \<noteq> [])"
  by (simp add: complete_def with_id_def truthy_str_iff)

lemma foldl_step_line_titled:
  assumes "\<forall>v\<in>set vs. (\<exists>t. title v = Some t \<and> t \<noteq> []) \<and> (\<exists>u. url v = Some u \<and> u \<noteq> [])"
    and "foldl step_line (vs, cur, n) ls = (vs', cur', n')"
  shows "\<forall>v\<in>set vs'. (\<exists>t. title v = Some t \<and> t \<noteq> []) \<and> (\<exists>u. url v = Some u \<and> u \<noteq> [])"
  using assms
proof (induction ls arbitrary: vs cur n)
  case Nil
  then show ?case by simp
next
  case (Cons l ls)
  obtain vs1 cur1 n1 where s1: "step_line (vs, cur, n) l = (vs1, cur1, n1)"
    by (cases "step_line (vs, cur, n) l") auto
  from step_line_videos [OF s1] Cons.prems(1) with_id_titled [of cur "int n - 1"]
  have "\<forall>v\<in>set vs1. (\<exists>t. title v = Some t \<and> t \<noteq> []) \<and> (\<exists>u. url v = Some u \<and> u \<noteq> [])"
    by auto
  moreover from Cons.prems(2) s1 have "foldl step_line (vs1, cur1, n1) ls = (vs', cur', n')"
    by simp
  ultimately show ?case by (rule Cons.IH)
qed

lemma push_last_titled:
  assumes "\<forall>v\<in>set vs. (\<exists>t. title v = Some t \<and> t \<noteq> []) \<and> (\<exists>u. url v = Some u \<and> u \<noteq> [])"
  shows "\<forall>v\<in>set (push_last (vs, cur, n)). (\<exists>t. title v = Some t \<and> t \<noteq> []) \<and> (\<exists>u. url v = Some u \<and> u \<noteq> [])"
  using assms with_id_titled [of cur "int n - 1"] by auto

lemma length_renumber: "length (renumber i vs) = length vs"
  by (induction vs arbitrary: i) simp_all

lemma renumber_nth:
  "j < length vs \<Longrightarrow> renumber i vs ! j = (vs ! j)\<lparr>id_no := int (i + j) + 1\<rparr>"
proof (induction vs arbitrary: i j)
  case Nil
  then show ?case by simp
next
  case (Cons v vs)
  show ?case
  proof (cases j)
    case 0
    then show ?thesis by simp
  next
    case (Suc k)
    with Cons.prems have "k < length vs" by simp
    from Cons.IH [OF this, of "Suc i"] Suc show ?thesis by simp
  qed
qed

lemma renumber_fields:
  assumes "v \<in> set (renumber i vs)"
  shows "\<exists>w\<in>set vs. title v = title w \<and> channel v = channel w \<and> url v = url w
           \<and> description v = description w"
proof -
  from assms obtain j where j: "j < length vs" and v: "v = renumber i vs ! j"
    by (auto simp: in_set_conv_nth length_renumber)
  from j have "vs ! j \<in> set vs" by simp
  moreover from j v have "title v = title (vs ! j) \<and> channel v = channel (vs ! j)
      \<and> url v = url (vs ! j) \<and> description v = description (vs ! j)"
    by (simp add: renumber_nth)
  ultimately show ?thesis by blast
qed

text \<open>
  Claim C6. For every input text, \<open>parseVideoResponse\<close> returns at most 5 candidates,
  every returned candidate has a non-empty title and a non-empty url, and the candidate at
  position \<open>i\<close> (from 0) has id \<open>i + 1\<close>: the ids are 1..N in emission order, whatever
  numbers the text carries.
\<close>

theorem parseVideoResponse_at_most_five_renumbered:
  "length (parseVideoResponse text) \<le> 5
   \<and> (\<forall>v\<in>set (parseVideoResponse text).
         (\<exists>t. title v = Some t \<and> t \<noteq> []) \<and> (\<exists>u. url v = Some u \<and> u \<noteq> []))
   \<and> (\<forall>i<length (parseVideoResponse text). id_no (parseVideoResponse text ! i) = int i + 1)"
proof -
  obtain vs cur n where sc: "scan_lines (split_nl text) = (vs, cur, n)"
    by (cases "scan_lines (split_nl text)") auto
  have "\<forall>v\<in>set vs. (\<exists>t. title v = Some t \<and> t \<noteq> []) \<and> (\<exists>u. url v = Some u \<and> u \<noteq> [])"
    using foldl_step_line_titled [of "[]" emptyVideo 1 "split_nl text" vs cur n] sc
    by (simp add: scan_lines_def)
  then have pushed: "\<forall>v\<in>set (push_last (vs, cur, n)).
      (\<exists>t. title v = Some t \<and> t \<noteq> []) \<and> (\<exists>u. url v = Some u \<and> u \<noteq> [])"
    by (rule push_last_titled)
  have res: "parseVideoResponse text = renumber 0 (take 5 (push_last (vs, cur, n)))"
    by (simp add: parseVideoResponse_def sc)
  have "length (parseVideoResponse text) \<le> 5"
    by (simp add: res length_renumber)
  moreover have "(\<exists>t. title v = Some t \<and> t \<noteq> []) \<and> (\<exists>u. url v = Some u \<and> u \<noteq> [])"
    if "v \<in> set (parseVideoResponse text)" for v
  proof -
    from that res obtain w where "w \<in> set (take 5 (push_last (vs, cur, n)))"
      and "title v = title w" and "url v = url w"
      using renumber_fields [of v 0] by auto
    with pushed show ?thesis by (auto dest: in_set_takeD)
  qed
  moreover have "id_no (parseVideoResponse text ! i) = int i + 1"
    if "i < length (parseVideoResponse text)" for i
    using that by (simp add: res length_renumber renumber_nth)
  ultimately show ?thesis by blast
qed

theorem parseVideoResponse_at_most_five_renumbered_witness:
  "length (parseVideoResponse odd_numbering_text) \<le> 5
   \<and> parseVideoResponse odd_numbering_text = [video_A, video_B]
   \<and> map id_no (parseVideoResponse odd_numbering_text) = [1, 2]
   \<and> map title (parseVideoResponse odd_numbering_text) = [Some (ascii ''A''), Some (ascii ''B'')]"
  using parseVideoResponse_at_most_five_renumbered [of odd_numbering_text]
  by (simp add: odd_numbering_parsed video_A_def video_B_def)

section \<open>parseVideoResponse: missing channel or description\<close>

text \<open>Lines of a label, a space and a clean value, and what an iteration does on them.\<close>

lemma split_nl_no_newline: "10 \<notin> set a \<Longrightarrow> split_nl a = [a]"
  by (induction a) auto

lemma split_nl_append: "10 \<notin> set a \<Longrightarrow> split_nl (a @ 10 # b) = a # split_nl b"
  by (induction a) auto

lemma trim_unchanged:
  assumes "s \<noteq> []" and "\<not> isWhiteSpace (hd s)" and "\<not> isWhiteSpace (last s)"
  shows "trim s = s"
proof -
  from assms(1,2) have "dropWhile isWhiteSpace s = s"
    by (cases s) simp_all
  moreover from assms(1,3) have "dropWhile isWhiteSpace (rev s) = rev s"
    by (cases "rev s") (simp_all add: hd_rev [symmetric])
  ultimately show ?thesis by (simp add: trim_def)
qed

lemma trim_clean: "clean_value x \<Longrightarrow> trim x = x"
  by (simp add: clean_value_def trim_unchanged)

lemma trim_space_clean: "clean_value x \<Longrightarrow> trim (32 # x) = x"
proof -
  assume c: "clean_value x"
  have "dropWhile isWhiteSpace (32 # x) = dropWhile isWhiteSpace x"
    by (simp add: isWhiteSpace_def)
  then have "trim (32 # x) = trim x" by (simp add: trim_def)
  with c show ?thesis by (simp add: trim_clean)
qed

lemma trim_labelled:
  assumes "clean_value x" and "l \<noteq> []" and "\<not> isWhiteSpace (hd l)"
  shows "trim (l @ x) = l @ x"
  using assms by (intro trim_unchanged) (simp_all add: clean_value_def)

lemma title_line:
  assumes "clean_value t"
  shows "step_line (vs, cur, n) (ascii ''Title: '' @ t) = (vs, cur\<lparr>title := Some t\<rparr>, n)"
proof -
  have tr: "trim (ascii ''Title: '' @ t) = ascii ''Title: '' @ t"
    using assms by (intro trim_labelled) (simp_all add: ascii_def isWhiteSpace_def)
  show ?thesis
    using tr trim_space_clean [OF assms]
    by (simp add: Let_def isMarker_def toLowerCase_def startsWithAny_def L_Title_def ascii_def)
qed

lemma channel_line:
  assumes "clean_value t"
  shows "step_line (vs, cur, n) (ascii ''Channel: '' @ t) = (vs, cur\<lparr>channel := Some t\<rparr>, n)"
proof -
  have tr: "trim (ascii ''Channel: '' @ t) = ascii ''Channel: '' @ t"
    using assms by (intro trim_labelled) (simp_all add: ascii_def isWhiteSpace_def)
  show ?thesis
    using tr trim_space_clean [OF assms]
    by (simp add: Let_def isMarker_def toLowerCase_def startsWithAny_def L_Title_def
          L_Channel_def ascii_def)
qed

lemma url_line:
  assumes "clean_value t"
  shows "step_line (vs, cur, n) (ascii ''URL: '' @ t) = (vs, cur\<lparr>url := Some t\<rparr>, n)"
proof -
  have tr: "trim (ascii ''URL: '' @ t) = ascii ''URL: '' @ t"
    using assms by (intro trim_labelled) (simp_all add: ascii_def isWhiteSpace_def)
  show ?thesis
    using tr trim_space_clean [OF assms]
    by (simp add: Let_def isMarker_def toLowerCase_def startsWithAny_def L_Title_def
          L_Channel_def L_URL_def ascii_def)
qed

lemma description_line:
  assumes "clean_value t"
  shows "step_line (vs, cur, n) (ascii ''Description: '' @ t)
           = (vs, cur\<lparr>description := Some t\<rparr>, n)"
proof -
  have tr: "trim (ascii ''Description: '' @ t) = ascii ''Description: '' @ t"
    using assms by (intro trim_labelled) (simp_all add: ascii_def isWhiteSpace_def)
  show ?thesis
    using tr trim_space_clean [OF assms]
    by (simp add: Let_def isMarker_def toLowerCase_def startsWithAny_def L_Title_def
          L_Channel_def L_URL_def L_Description_def ascii_def)
qed

text \<open>A channel line and a description line reach their own branch of the loop.\<close>

lemma startsWith_Cons: "startsWith s (p # ps) \<longleftrightarrow> (\<exists>cs. s = p # cs \<and> startsWith cs ps)"
  by (cases s) auto

lemma channel_label_first:
  "startsWithAny s L_Channel \<Longrightarrow> \<exists>cs. s = 67 # cs \<or> s = 52292 # cs"
  by (auto simp: startsWithAny_def L_Channel_def ascii_def startsWith_Cons)

lemma description_label_first:
  "startsWithAny s L_Description \<Longrightarrow> \<exists>cs. s = 68 # cs \<or> s = 49444 # cs"
  by (auto simp: startsWithAny_def L_Description_def ascii_def startsWith_Cons)

lemma channel_line_branch:
  assumes "startsWithAny (trim l) L_Channel"
  shows "step_line (vs, cur, n) l
           = (vs, cur\<lparr>channel := Some (trim (replace_prefix L_Channel (trim l)))\<rparr>, n)"
proof -
  from channel_label_first [OF assms] obtain cs where "trim l = 67 # cs \<or> trim l = 52292 # cs"
    by blast
  then have "\<not> isMarker n (trim l)" and "\<not> startsWithAny (trim l) L_Title"
    by (auto simp: isMarker_def toLowerCase_def startsWithAny_def L_Title_def ascii_def)
  with assms show ?thesis by (simp add: Let_def)
qed

lemma description_line_branch:
  assumes "startsWithAny (trim l) L_Description"
  shows "step_line (vs, cur, n) l
           = (vs, cur\<lparr>description := Some (trim (replace_prefix L_Description (trim l)))\<rparr>, n)"
proof -
  from description_label_first [OF assms]
  obtain cs where "trim l = 68 # cs \<or> trim l = 49444 # cs"
    by blast
  then have "\<not> isMarker n (trim l)" and "\<not> startsWithAny (trim l) L_Title"
    and "\<not> startsWithAny (trim l) L_Channel" and "\<not> startsWithAny (trim l) L_URL"
    by (auto simp: isMarker_def toLowerCase_def startsWithAny_def L_Title_def L_Channel_def
          L_URL_def ascii_def)
  with assms show ?thesis by (simp add: Let_def)
qed

lemma marker_push:
  "isMarker n (trim l) \<Longrightarrow>
     step_line (vs, cur, n) l =
       (if truthy_str (title cur) \<and> truthy_str (url cur)
        then (vs @ [\<lparr>title = title cur, channel = channel cur, url = url cur,
                      description = description cur, id_no = int n - 1\<rparr>], emptyVideo, Suc n)
        else (vs, cur, Suc n))"
  by (simp add: Let_def complete_def with_id_def)

lemma last_push:
  "push_last (vs, cur, n) =
     (if truthy_str (title cur) \<and> truthy_str (url cur)
      then vs @ [\<lparr>title = title cur, channel = channel cur, url = url cur,
                   description = description cur, id_no = int n - 1\<rparr>]
      else vs)"
  by (simp add: complete_def with_id_def)

text \<open>Every channel and every description that is returned was read from a line.\<close>

lemma from_line_None: "from_line labels lines None"
  by (simp add: from_line_def)

lemma from_line_Some:
  "l \<in> set lines \<Longrightarrow> startsWithAny (trim l) labels \<Longrightarrow>
     from_line labels lines (Some (trim (replace_prefix labels (trim l))))"
  by (auto simp: from_line_def list_ex_iff)

lemma step_line_channel_source:
  assumes "l \<in> set lines"
    and "step_line (vs, cur, n) l = (vs', cur', n')"
    and "from_line L_Channel lines (channel cur)"
    and "\<forall>v\<in>set vs. from_line L_Channel lines (channel v)"
  shows "from_line L_Channel lines (channel cur')
         \<and> (\<forall>v\<in>set vs'. from_line L_Channel lines (channel v))"
proof (cases "startsWithAny (trim l) L_Channel")
  case True
  from assms(2) have "vs' = vs"
    and "cur' = cur\<lparr>channel := Some (trim (replace_prefix L_Channel (trim l)))\<rparr>"
    unfolding channel_line_branch [OF True] by simp_all
  with assms(4) from_line_Some [OF assms(1) True] show ?thesis by simp
next
  case False
  with assms show ?thesis
    by (auto simp: Let_def with_id_def emptyVideo_def from_line_None split: if_splits)
qed

lemma step_line_description_source:
  assumes "l \<in> set lines"
    and "step_line (vs, cur, n) l = (vs', cur', n')"
    and "from_line L_Description lines (description cur)"
    and "\<forall>v\<in>set vs. from_line L_Description lines (description v)"
  shows "from_line L_Description lines (description cur')
         \<and> (\<forall>v\<in>set vs'. from_line L_Description lines (description v))"
proof (cases "startsWithAny (trim l) L_Description")
  case True
  from assms(2) have "vs' = vs"
    and "cur' = cur\<lparr>description := Some (trim (replace_prefix L_Description (trim l)))\<rparr>"
    unfolding description_line_branch [OF True] by simp_all
  with assms(4) from_line_Some [OF assms(1) True] show ?thesis by simp
next
  case False
  with assms show ?thesis
    by (auto simp: Let_def with_id_def emptyVideo_def from_line_None split: if_splits)
qed

lemma foldl_channel_source:
  assumes "set ls \<subseteq> set lines"
    and "foldl step_line (vs, cur, n) ls = (vs', cur', n')"
    and "from_line L_Channel lines (channel cur)"
    and "\<forall>v\<in>set vs. from_line L_Channel lines (channel v)"
  shows "from_line L_Channel lines (channel cur')
         \<and> (\<forall>v\<in>set vs'. from_line L_Channel lines (channel v))"
  using assms
proof (induction ls arbitrary: vs cur n)
  case Nil
  then show ?case by simp
next
  case (Cons l ls)
  obtain vs1 cur1 n1 where s1: "step_line (vs, cur, n) l = (vs1, cur1, n1)"
    by (cases "step_line (vs, cur, n) l") auto
  from Cons.prems(1) have "l \<in> set lines" and sub: "set ls \<subseteq> set lines" by simp_all
  from step_line_channel_source [OF this(1) s1 Cons.prems(3,4)]
  have "from_line L_Channel lines (channel cur1)"
    and "\<forall>v\<in>set vs1. from_line L_Channel lines (channel v)" by simp_all
  moreover from Cons.prems(2) s1 have "foldl step_line (vs1, cur1, n1) ls = (vs', cur', n')"
    by simp
  ultimately show ?case using Cons.IH [OF sub] by blast
qed

lemma foldl_description_source:
  assumes "set ls \<subseteq> set lines"
    and "foldl step_line (vs, cur, n) ls = (vs', cur', n')"
    and "from_line L_Description lines (description cur)"
    and "\<forall>v\<in>set vs. from_line L_Description lines (description v)"
  shows "from_line L_Description lines (description cur')
         \<and> (\<forall>v\<in>set vs'. from_line L_Description lines (description v))"
  using assms
proof (induction ls arbitrary: vs cur n)
  case Nil
  then show ?case by simp
next
  case (Cons l ls)
  obtain vs1 cur1 n1 where s1: "step_line (vs, cur, n) l = (vs1, cur1, n1)"
    by (cases "step_line (vs, cur, n) l") auto
  from Cons.prems(1) have "l \<in> set lines" and sub: "set ls \<subseteq> set lines" by simp_all
  from step_line_description_source [OF this(1) s1 Cons.prems(3,4)]
  have "from_line L_Description lines (description cur1)"
    and "\<forall>v\<in>set vs1. from_line L_Description lines (description v)" by simp_all
  moreover from Cons.prems(2) s1 have "foldl step_line (vs1, cur1, n1) ls = (vs', cur', n')"
    by simp
  ultimately show ?case using Cons.IH [OF sub] by blast
qed

lemma returned_fields_source:
  assumes "v \<in> set (parseVideoResponse text)"
  shows "from_line L_Channel (split_nl text) (channel v)
         \<and> from_line L_Description (split_nl text) (description v)"
proof -
  obtain vs cur n where sc: "scan_lines (split_nl text) = (vs, cur, n)"
    by (cases "scan_lines (split_nl text)") auto
  then have f: "foldl step_line ([], emptyVideo, 1) (split_nl text) = (vs, cur, n)"
    by (simp add: scan_lines_def)
  have c: "from_line L_Channel (split_nl text) (channel cur)
      \<and> (\<forall>v\<in>set vs. from_line L_Channel (split_nl text) (channel v))"
    by (rule foldl_channel_source [OF subset_refl f]) (simp_all add: emptyVideo_def from_line_None)
  have d: "from_line L_Description (split_nl text) (description cur)
      \<and> (\<forall>v\<in>set vs. from_line L_Description (split_nl text) (description v))"
    by (rule foldl_description_source [OF subset_refl f])
      (simp_all add: emptyVideo_def from_line_None)
  from c d have pushed: "\<forall>w\<in>set (push_last (vs, cur, n)).
      from_line L_Channel (split_nl text) (channel w)
      \<and> from_line L_Description (split_nl text) (description w)"
    by (auto simp: with_id_def)
  from assms obtain w where "w \<in> set (take 5 (push_last (vs, cur, n)))"
    and "channel v = channel w" and "description v = description w"
    using renumber_fields [of v 0] by (auto simp: parseVideoResponse_def sc)
  with pushed show ?thesis by (auto dest: in_set_takeD)
qed

text \<open>From a point where the accumulator holds no channel, and with no channel line
  after it, every candidate pushed later has none; the same for descriptions.\<close>

lemma foldl_after_no_channel:
  assumes "\<forall>l\<in>set ls. \<not> startsWithAny (trim l) L_Channel"
    and "channel cur = None"
    and "foldl step_line (vs, cur, n) ls = (vs', cur', n')"
  shows "\<exists>new. vs' = vs @ new \<and> (\<forall>v\<in>set new. channel v = None) \<and> channel cur' = None"
  using assms
proof (induction ls arbitrary: vs cur n)
  case Nil
  then show ?case by simp
next
  case (Cons l ls)
  obtain vs1 cur1 n1 where s1: "step_line (vs, cur, n) l = (vs1, cur1, n1)"
    by (cases "step_line (vs, cur, n) l") auto
  from Cons.prems(1) have nl: "\<not> startsWithAny (trim l) L_Channel"
    and rest: "\<forall>l\<in>set ls. \<not> startsWithAny (trim l) L_Channel" by simp_all
  from s1 nl Cons.prems(2)
  have c1: "channel cur1 = None"
    and v1: "vs1 = vs \<or> (vs1 = vs @ [with_id cur (int n - 1)])"
    by (auto simp: Let_def emptyVideo_def split: if_splits)
  from Cons.prems(3) s1 have "foldl step_line (vs1, cur1, n1) ls = (vs', cur', n')" by simp
  from Cons.IH [OF rest c1 this] obtain new where new: "vs' = vs1 @ new"
    "\<forall>v\<in>set new. channel v = None" "channel cur' = None" by blast
  from v1 show ?case
  proof
    assume "vs1 = vs"
    with new show ?thesis by blast
  next
    assume "vs1 = vs @ [with_id cur (int n - 1)]"
    with new Cons.prems(2) have "vs' = vs @ (with_id cur (int n - 1) # new)"
      and "\<forall>v\<in>set (with_id cur (int n - 1) # new). channel v = None"
      by (simp_all add: with_id_def)
    with new(3) show ?thesis by blast
  qed
qed

lemma foldl_after_no_description:
  assumes "\<forall>l\<in>set ls. \<not> startsWithAny (trim l) L_Description"
    and "description cur = None"
    and "foldl step_line (vs, cur, n) ls = (vs', cur', n')"
  shows "\<exists>new. vs' = vs @ new \<and> (\<forall>v\<in>set new. description v = None)
           \<and> description cur' = None"
  using assms
proof (induction ls arbitrary: vs cur n)
  case Nil
  then show ?case by simp
next
  case (Cons l ls)
  obtain vs1 cur1 n1 where s1: "step_line (vs, cur, n) l = (vs1, cur1, n1)"
    by (cases "step_line (vs, cur, n) l") auto
  from Cons.prems(1) have nl: "\<not> startsWithAny (trim l) L_Description"
    and rest: "\<forall>l\<in>set ls. \<not> startsWithAny (trim l) L_Description" by simp_all
  from s1 nl Cons.prems(2)
  have c1: "description cur1 = None"
    and v1: "vs1 = vs \<or> (vs1 = vs @ [with_id cur (int n - 1)])"
    by (auto simp: Let_def emptyVideo_def split: if_splits)
  from Cons.prems(3) s1 have "foldl step_line (vs1, cur1, n1) ls = (vs', cur', n')" by simp
  from Cons.IH [OF rest c1 this] obtain new where new: "vs' = vs1 @ new"
    "\<forall>v\<in>set new. description v = None" "description cur' = None" by blast
  from v1 show ?case
  proof
    assume "vs1 = vs"
    with new show ?thesis by blast
  next
    assume "vs1 = vs @ [with_id cur (int n - 1)]"
    with new Cons.prems(2) have "vs' = vs @ (with_id cur (int n - 1) # new)"
      and "\<forall>v\<in>set (with_id cur (int n - 1) # new). description v = None"
      by (simp_all add: with_id_def)
    with new(3) show ?thesis by blast
  qed
qed

lemma result_nth_fields:
  assumes "i < length (parseVideoResponse text)"
  shows "i < length (push_last (scan_lines (split_nl text)))
         \<and> channel (parseVideoResponse text ! i)
             = channel (push_last (scan_lines (split_nl text)) ! i)
         \<and> description (parseVideoResponse text ! i)
             = description (push_last (scan_lines (split_nl text)) ! i)"
  using assms by (simp add: parseVideoResponse_def length_renumber renumber_nth)

lemma entries_after_no_channel:
  assumes "split_nl text = ls1 @ ls2" and "scan_lines ls1 = (vs1, cur1, n1)"
    and "channel cur1 = None" and "\<forall>l\<in>set ls2. \<not> startsWithAny (trim l) L_Channel"
    and "length vs1 \<le> i" and "i < length (parseVideoResponse text)"
  shows "channel (parseVideoResponse text ! i) = None"
proof -
  obtain vs' cur' n' where f: "foldl step_line (vs1, cur1, n1) ls2 = (vs', cur', n')"
    by (cases "foldl step_line (vs1, cur1, n1) ls2") auto
  with assms(1,2) have sc: "scan_lines (split_nl text) = (vs', cur', n')"
    by (simp add: scan_lines_def)
  from foldl_after_no_channel [OF assms(4,3) f] obtain new where new: "vs' = vs1 @ new"
    "\<forall>v\<in>set new. channel v = None" "channel cur' = None" by blast
  define new' where "new' = (if complete cur' then new @ [with_id cur' (int n' - 1)] else new)"
  have pl: "push_last (vs', cur', n') = vs1 @ new'"
    by (simp add: new'_def new(1))
  have none: "\<forall>v\<in>set new'. channel v = None"
    using new(2,3) by (simp add: new'_def with_id_def)
  from result_nth_fields [OF assms(6)] sc pl
  have i: "i < length (vs1 @ new')"
    and eq: "channel (parseVideoResponse text ! i) = channel ((vs1 @ new') ! i)" by simp_all
  from i assms(5) have "(vs1 @ new') ! i = new' ! (i - length vs1)" and "i - length vs1 < length new'"
    by (simp_all add: nth_append)
  with none eq show ?thesis by simp
qed

lemma entries_after_no_description:
  assumes "split_nl text = ls1 @ ls2" and "scan_lines ls1 = (vs1, cur1, n1)"
    and "description cur1 = None"
    and "\<forall>l\<in>set ls2. \<not> startsWithAny (trim l) L_Description"
    and "length vs1 \<le> i" and "i < length (parseVideoResponse text)"
  shows "description (parseVideoResponse text ! i) = None"
proof -
  obtain vs' cur' n' where f: "foldl step_line (vs1, cur1, n1) ls2 = (vs', cur', n')"
    by (cases "foldl step_line (vs1, cur1, n1) ls2") auto
  with assms(1,2) have sc: "scan_lines (split_nl text) = (vs', cur', n')"
    by (simp add: scan_lines_def)
  from foldl_after_no_description [OF assms(4,3) f] obtain new where new: "vs' = vs1 @ new"
    "\<forall>v\<in>set new. description v = None" "description cur' = None" by blast
  define new' where "new' = (if complete cur' then new @ [with_id cur' (int n' - 1)] else new)"
  have pl: "push_last (vs', cur', n') = vs1 @ new'"
    by (simp add: new'_def new(1))
  have none: "\<forall>v\<in>set new'. description v = None"
    using new(2,3) by (simp add: new'_def with_id_def)
  from result_nth_fields [OF assms(6)] sc pl
  have i: "i < length (vs1 @ new')"
    and eq: "description (parseVideoResponse text ! i) = description ((vs1 @ new') ! i)"
    by simp_all
  from i assms(5) have "(vs1 @ new') ! i = new' ! (i - length vs1)" and "i - length vs1 < length new'"
    by (simp_all add: nth_append)
  with none eq show ?thesis by simp
qed

lemma foldl_extends:
  "foldl step_line (vs, cur, n) ls = (vs', cur', n') \<Longrightarrow> \<exists>more. vs' = vs @ more"
proof (induction ls arbitrary: vs cur n)
  case Nil
  then show ?case by simp
next
  case (Cons l ls)
  obtain vs1 cur1 n1 where s1: "step_line (vs, cur, n) l = (vs1, cur1, n1)"
    by (cases "step_line (vs, cur, n) l") auto
  with Cons.prems have "foldl step_line (vs1, cur1, n1) ls = (vs', cur', n')" by simp
  from Cons.IH [OF this] obtain more where "vs' = vs1 @ more" by blast
  with step_line_videos [OF s1] show ?case by auto
qed

lemma push_last_extends: "\<exists>more. push_last (vs, cur, n) = vs @ more"
  by simp

lemma entries_between_no_channel:
  assumes "split_nl text = ls1 @ ls2 @ ls3"
    and "scan_lines ls1 = (vs1, cur1, n1)" and "scan_lines (ls1 @ ls2) = (vs2, cur2, n2)"
    and "channel cur1 = None" and "\<forall>l\<in>set ls2. \<not> startsWithAny (trim l) L_Channel"
    and "length vs1 \<le> i" and "i < length vs2" and "i < length (parseVideoResponse text)"
  shows "channel (parseVideoResponse text ! i) = None"
proof -
  from assms(2,3) have f2: "foldl step_line (vs1, cur1, n1) ls2 = (vs2, cur2, n2)"
    by (simp add: scan_lines_def)
  from foldl_after_no_channel [OF assms(5,4) f2] obtain new where new: "vs2 = vs1 @ new"
    "\<forall>v\<in>set new. channel v = None" by blast
  obtain vs' cur' n' where f3: "foldl step_line (vs2, cur2, n2) ls3 = (vs', cur', n')"
    by (cases "foldl step_line (vs2, cur2, n2) ls3") auto
  with assms(1,3) have sc: "scan_lines (split_nl text) = (vs', cur', n')"
    by (simp add: scan_lines_def)
  from foldl_extends [OF f3] push_last_extends [of vs' cur' n']
  obtain more where pl: "push_last (vs', cur', n') = vs2 @ more" by auto
  from result_nth_fields [OF assms(8)] sc pl
  have "channel (parseVideoResponse text ! i) = channel ((vs2 @ more) ! i)" by simp
  also from assms(7) have "\<dots> = channel (vs2 ! i)" by (simp add: nth_append)
  also from assms(6,7) new(1) have "\<dots> = channel (new ! (i - length vs1))"
    by (simp add: nth_append)
  also from assms(6,7) new have "\<dots> = None" by simp
  finally show ?thesis .
qed

lemma entries_between_no_description:
  assumes "split_nl text = ls1 @ ls2 @ ls3"
    and "scan_lines ls1 = (vs1, cur1, n1)" and "scan_lines (ls1 @ ls2) = (vs2, cur2, n2)"
    and "description cur1 = None"
    and "\<forall>l\<in>set ls2. \<not> startsWithAny (trim l) L_Description"
    and "length vs1 \<le> i" and "i < length vs2" and "i < length (parseVideoResponse text)"
  shows "description (parseVideoResponse text ! i) = None"
proof -
  from assms(2,3) have f2: "foldl step_line (vs1, cur1, n1) ls2 = (vs2, cur2, n2)"
    by (simp add: scan_lines_def)
  from foldl_after_no_description [OF assms(5,4) f2] obtain new where new: "vs2 = vs1 @ new"
    "\<forall>v\<in>set new. description v = None" by blast
  obtain vs' cur' n' where f3: "foldl step_line (vs2, cur2, n2) ls3 = (vs', cur', n')"
    by (cases "foldl step_line (vs2, cur2, n2) ls3") auto
  with assms(1,3) have sc: "scan_lines (split_nl text) = (vs', cur', n')"
    by (simp add: scan_lines_def)
  from foldl_extends [OF f3] push_last_extends [of vs' cur' n']
  obtain more where pl: "push_last (vs', cur', n') = vs2 @ more" by auto
  from result_nth_fields [OF assms(8)] sc pl
  have "description (parseVideoResponse text ! i) = description ((vs2 @ more) ! i)" by simp
  also from assms(7) have "\<dots> = description (vs2 ! i)" by (simp add: nth_append)
  also from assms(6,7) new(1) have "\<dots> = description (new ! (i - length vs1))"
    by (simp add: nth_append)
  also from assms(6,7) new have "\<dots> = None" by simp
  finally show ?thesis .
qed

lemma entries_in_span_no_channel:
  assumes "split_nl text = ls1 @ ls2 @ ls3"
    and "scan_lines ls1 = (vs1, cur1, n1)" and "scan_lines (ls1 @ ls2) = (vs2, cur2, n2)"
    and "channel cur1 = None" and "\<forall>l\<in>set ls2. \<not> startsWithAny (trim l) L_Channel"
    and "length vs1 \<le> i" and "i < length vs2 \<or> ls3 = []"
    and "i < length (parseVideoResponse text)"
  shows "channel (parseVideoResponse text ! i) = None"
proof (cases "i < length vs2")
  case True
  from entries_between_no_channel [OF assms(1-6) True assms(8)] show ?thesis .
next
  case False
  with assms(7) have "ls3 = []" by simp
  with assms(1) have "split_nl text = ls1 @ ls2" by simp
  from entries_after_no_channel [OF this assms(2,4,5,6,8)] show ?thesis .
qed

lemma entries_in_span_no_description:
  assumes "split_nl text = ls1 @ ls2 @ ls3"
    and "scan_lines ls1 = (vs1, cur1, n1)" and "scan_lines (ls1 @ ls2) = (vs2, cur2, n2)"
    and "description cur1 = None"
    and "\<forall>l\<in>set ls2. \<not> startsWithAny (trim l) L_Description"
    and "length vs1 \<le> i" and "i < length vs2 \<or> ls3 = []"
    and "i < length (parseVideoResponse text)"
  shows "description (parseVideoResponse text ! i) = None"
proof (cases "i < length vs2")
  case True
  from entries_between_no_description [OF assms(1-6) True assms(8)] show ?thesis .
next
  case False
  with assms(7) have "ls3 = []" by simp
  with assms(1) have "split_nl text = ls1 @ ls2" by simp
  from entries_after_no_description [OF this assms(2,4,5,6,8)] show ?thesis .
qed

text \<open>Texts with the same other lines return the same ids, titles and urls.\<close>

lemma outline_step_same:
  "outline st = outline st' \<Longrightarrow> outline (step_line st l) = outline (step_line st' l)"
  by (cases st; cases st') (auto simp: Let_def complete_def with_id_def emptyVideo_def)

lemma outline_step_skip:
  assumes "\<not> other_line l"
  shows "outline (step_line st l) = outline st"
proof (cases st)
  case (fields vs cur n)
  show ?thesis
  proof (cases "startsWithAny (trim l) L_Channel")
    case True
    then show ?thesis by (simp only: fields channel_line_branch) simp
  next
    case False
    with assms have "startsWithAny (trim l) L_Description" by (simp add: other_line_def)
    then show ?thesis by (simp only: fields description_line_branch) simp
  qed
qed

lemma outline_foldl_filter:
  "outline st = outline st' \<Longrightarrow>
     outline (foldl step_line st ls) = outline (foldl step_line st' (filter other_line ls))"
proof (induction ls arbitrary: st st')
  case Nil
  then show ?case by simp
next
  case (Cons l ls)
  show ?case
  proof (cases "other_line l")
    case True
    from outline_step_same [OF Cons.prems, of l]
    have "outline (foldl step_line (step_line st l) ls)
        = outline (foldl step_line (step_line st' l) (filter other_line ls))"
      by (rule Cons.IH)
    with True show ?thesis by simp
  next
    case False
    from outline_step_skip [OF False, of st] Cons.prems
    have "outline (step_line st l) = outline st'" by simp
    then have "outline (foldl step_line (step_line st l) ls)
        = outline (foldl step_line st' (filter other_line ls))"
      by (rule Cons.IH)
    with False show ?thesis by simp
  qed
qed

lemma renumber_outline:
  "map (\<lambda>v. (title v, url v)) vs = map (\<lambda>v. (title v, url v)) vs' \<Longrightarrow>
     map (\<lambda>v. (id_no v, title v, url v)) (renumber i vs)
       = map (\<lambda>v. (id_no v, title v, url v)) (renumber i vs')"
proof (induction vs arbitrary: vs' i)
  case Nil
  then show ?case by simp
next
  case (Cons v vs)
  then obtain w ws where "vs' = w # ws" by (cases vs') auto
  with Cons show ?case by simp
qed

lemma outline_result:
  assumes "outline st = outline st'"
  shows "map (\<lambda>v. (id_no v, title v, url v)) (renumber 0 (take 5 (push_last st)))
           = map (\<lambda>v. (id_no v, title v, url v)) (renumber 0 (take 5 (push_last st')))"
proof -
  obtain vs cur n where st: "st = (vs, cur, n)" by (cases st) auto
  obtain vs' cur' n' where st': "st' = (vs', cur', n')" by (cases st') auto
  from assms have "map (\<lambda>v. (id_no v, title v, url v)) (push_last st)
      = map (\<lambda>v. (id_no v, title v, url v)) (push_last st')"
    by (simp add: st st' complete_def with_id_def)
  from arg_cong [OF this, of "map snd"]
  have "map (\<lambda>v. (title v, url v)) (push_last st)
      = map (\<lambda>v. (title v, url v)) (push_last st')"
    by (simp add: comp_def)
  then have "map (\<lambda>v. (title v, url v)) (take 5 (push_last st))
      = map (\<lambda>v. (title v, url v)) (take 5 (push_last st'))"
    by (simp only: take_map [symmetric])
  then show ?thesis by (rule renumber_outline)
qed

lemma same_other_lines:
  assumes "filter other_line (split_nl text) = filter other_line (split_nl text')"
  shows "map (\<lambda>v. (id_no v, title v, url v)) (parseVideoResponse text)
           = map (\<lambda>v. (id_no v, title v, url v)) (parseVideoResponse text')"
proof -
  have "outline (scan_lines (split_nl text))
      = outline (foldl step_line ([], emptyVideo, 1) (filter other_line (split_nl text)))"
    unfolding scan_lines_def by (rule outline_foldl_filter) simp
  also have "\<dots> = outline (scan_lines (split_nl text'))"
    unfolding scan_lines_def assms by (rule outline_foldl_filter [symmetric]) simp
  finally show ?thesis
    unfolding parseVideoResponse_def by (rule outline_result)
qed

text \<open>
  Claim C4, as stated, fails: the candidate of a block with a title line and a URL line
  only has no \<open>channel\<close> and no \<open>description\<close> field (\<open>undefined\<close>); the fields are
  not present with the empty string as value.
\<close>

theorem missing_channel_is_not_empty_string:
  "parseVideoResponse one_video_text =
     [\<lparr>title = Some (ascii ''C''), channel = None, url = Some (ascii ''W''),
       description = None, id_no = 1\<rparr>]
   \<and> (None :: jsstring option) \<noteq> Some []"
  by (simp add: one_video_parsed video_C_def)

text \<open>
  Claim C4, amended. Whether an accumulated entry is emitted depends on its title and url
  only: at a marker line and after the last line the accumulator is pushed exactly when
  its title and url are both non-empty, with the channel and description it holds then,
  and texts that differ only in channel and description lines return candidates with the
  same ids, titles and urls; so a missing channel or description never disqualifies an
  entry, and only a missing or empty title or url does. No field is defaulted to the empty
  string: the channel (description) of every returned candidate is absent or the value of
  a channel (description) line of the text, and it is absent for every candidate pushed
  within a span of lines that starts where the accumulator holds no channel (description)
  and has no channel (description) line in it; the push after the last line counts when
  the span reaches the end of the text.
\<close>

theorem missing_fields_are_absent:
  "(isMarker n (trim l) \<longrightarrow>
      step_line (vs, cur, n) l =
        (if truthy_str (title cur) \<and> truthy_str (url cur)
         then (vs @ [\<lparr>title = title cur, channel = channel cur, url = url cur,
                       description = description cur, id_no = int n - 1\<rparr>],
               emptyVideo, Suc n)
         else (vs, cur, Suc n)))
   \<and> push_last (vs, cur, n) =
        (if truthy_str (title cur) \<and> truthy_str (url cur)
         then vs @ [\<lparr>title = title cur, channel = channel cur, url = url cur,
                      description = description cur, id_no = int n - 1\<rparr>]
         else vs)
   \<and> (filter other_line (split_nl text) = filter other_line (split_nl text') \<longrightarrow>
        map (\<lambda>v. (id_no v, title v, url v)) (parseVideoResponse text)
          = map (\<lambda>v. (id_no v, title v, url v)) (parseVideoResponse text'))
   \<and> (\<forall>v\<in>set (parseVideoResponse text).
         from_line L_Channel (split_nl text) (channel v)
         \<and> from_line L_Description (split_nl text) (description v))
   \<and> (split_nl text = ls1 @ ls2 @ ls3
        \<and> scan_lines ls1 = (vs1, cur1, n1) \<and> scan_lines (ls1 @ ls2) = (vs2, cur2, n2)
        \<and> length vs1 \<le> i \<and> (i < length vs2 \<or> ls3 = [])
        \<and> i < length (parseVideoResponse text) \<longrightarrow>
        (channel cur1 = None \<and> (\<forall>l\<in>set ls2. \<not> startsWithAny (trim l) L_Channel) \<longrightarrow>
           channel (parseVideoResponse text ! i) = None)
        \<and> (description cur1 = None
            \<and> (\<forall>l\<in>set ls2. \<not> startsWithAny (trim l) L_Description) \<longrightarrow>
           description (parseVideoResponse text ! i) = None))"
  using marker_push [of n l vs cur] last_push [of vs cur n] same_other_lines [of "text" text']
    returned_fields_source [of _ "text"]
    entries_in_span_no_channel [of "text" ls1 ls2 ls3 vs1 cur1 n1 vs2 cur2 n2 i]
    entries_in_span_no_description [of "text" ls1 ls2 ls3 vs1 cur1 n1 vs2 cur2 n2 i]
  by blast

theorem missing_fields_are_absent_witness:
  "isMarker 2 (trim (ascii ''Video 2''))
   \<and> step_line ([], \<lparr>title = Some (ascii ''A''), channel = None, url = Some (ascii ''U''),
                     description = None\<rparr>, 2) (ascii ''Video 2'')
       = ([\<lparr>title = Some (ascii ''A''), channel = None, url = Some (ascii ''U''),
            description = None, id_no = 1\<rparr>], emptyVideo, 3)
   \<and> filter other_line (split_nl none_then_channel_text)
       = filter other_line (split_nl two_videos_text)
   \<and> map (\<lambda>v. (id_no v, title v, url v)) (parseVideoResponse none_then_channel_text)
       = map (\<lambda>v. (id_no v, title v, url v)) (parseVideoResponse two_videos_text)
   \<and> split_nl none_then_channel_text
       = [] @ [ascii ''Video 1'', ascii ''Title: A'', ascii ''URL: U'', ascii ''Video 2'']
         @ [ascii ''Title: B'', ascii ''Channel: K'', ascii ''URL: V'']
   \<and> scan_lines [] = ([], emptyVideo, 1)
   \<and> scan_lines ([] @ [ascii ''Video 1'', ascii ''Title: A'', ascii ''URL: U'',
                        ascii ''Video 2''])
       = ([\<lparr>title = Some (ascii ''A''), channel = None, url = Some (ascii ''U''),
            description = None, id_no = 1\<rparr>], emptyVideo, 3)
   \<and> map channel (parseVideoResponse none_then_channel_text) = [None, Some (ascii ''K'')]
   \<and> channel (parseVideoResponse none_then_channel_text ! 0) = None
   \<and> description (parseVideoResponse none_then_channel_text ! 0) = None"
proof -
  have m: "isMarker 2 (trim (ascii ''Video 2''))"
    by (simp add: isMarker_def string_eval)
  have st: "step_line ([], \<lparr>title = Some (ascii ''A''), channel = None,
        url = Some (ascii ''U''), description = None\<rparr>, 2) (ascii ''Video 2'')
      = ([\<lparr>title = Some (ascii ''A''), channel = None, url = Some (ascii ''U''),
           description = None, id_no = 1\<rparr>], emptyVideo, 3)"
    by (simp add: Let_def isMarker_def complete_def with_id_def string_eval)
  have flt: "filter other_line (split_nl none_then_channel_text)
      = filter other_line (split_nl two_videos_text)"
    by (simp add: none_then_channel_text_def two_videos_text_def other_line_def
          startsWithAny_def L_Channel_def L_Description_def string_eval)
  have lines: "split_nl none_then_channel_text
      = [] @ [ascii ''Video 1'', ascii ''Title: A'', ascii ''URL: U'', ascii ''Video 2'']
        @ [ascii ''Title: B'', ascii ''Channel: K'', ascii ''URL: V'']"
    by (simp add: none_then_channel_text_def ascii_def)
  have sc1: "scan_lines [] = ([], emptyVideo, 1)"
    by (simp add: scan_lines_def)
  have sc2: "scan_lines ([] @ [ascii ''Video 1'', ascii ''Title: A'', ascii ''URL: U'',
        ascii ''Video 2''])
      = ([\<lparr>title = Some (ascii ''A''), channel = None, url = Some (ascii ''U''),
           description = None, id_no = 1\<rparr>], emptyVideo, 3)"
    by (simp add: parse_eval string_eval)
  have span: "\<forall>l\<in>set [ascii ''Video 1'', ascii ''Title: A'', ascii ''URL: U'',
        ascii ''Video 2''].
      \<not> startsWithAny (trim l) L_Channel \<and> \<not> startsWithAny (trim l) L_Description"
    by (simp add: startsWithAny_def L_Channel_def L_Description_def string_eval)
  have idx: "length ([] :: VideoRecommendation list) \<le> 0"
    "0 < length [\<lparr>title = Some (ascii ''A''), channel = None, url = Some (ascii ''U''),
        description = None, id_no = 1\<rparr>]"
    "0 < length (parseVideoResponse none_then_channel_text)"
    "channel emptyVideo = None" "description emptyVideo = None"
    by (simp_all add: none_then_channel_parsed emptyVideo_def)
  with flt lines sc1 sc2 span missing_fields_are_absent
    [of 2 "ascii ''Video 2''" "[]"
        "\<lparr>title = Some (ascii ''A''), channel = None, url = Some (ascii ''U''),
          description = None\<rparr>"
        none_then_channel_text two_videos_text
        "[]" "[ascii ''Video 1'', ascii ''Title: A'', ascii ''URL: U'', ascii ''Video 2'']"
        "[ascii ''Title: B'', ascii ''Channel: K'', ascii ''URL: V'']"
        "[]" emptyVideo 1
        "[\<lparr>title = Some (ascii ''A''), channel = None, url = Some (ascii ''U''),
           description = None, id_no = 1\<rparr>]"
        emptyVideo 3 0]
  have "map (\<lambda>v. (id_no v, title v, url v)) (parseVideoResponse none_then_channel_text)
      = map (\<lambda>v. (id_no v, title v, url v)) (parseVideoResponse two_videos_text)"
    and "channel (parseVideoResponse none_then_channel_text ! 0) = None"
    and "description (parseVideoResponse none_then_channel_text ! 0) = None"
    by blast+
  with m st flt lines sc1 sc2 show ?thesis
    by (simp add: none_then_channel_parsed video_A_def)
qed

section \<open>parseVideoResponse: incomplete blocks\<close>

text \<open>A marker that meets an accumulator without title or url pushes nothing, and
  leaves the accumulator as it is: \<open>currentVideo = {}\<close> stands inside the \<open>if\<close> of
  the push.\<close>

lemma marker_line_incomplete:
  "isMarker n (trim l) \<Longrightarrow> \<not> complete cur \<Longrightarrow> step_line (vs, cur, n) l = (vs, cur, Suc n)"
  by (simp add: Let_def)

lemma first_marker:
  "step_line (vs, emptyVideo, Suc 0) (ascii ''Video 1'') = (vs, emptyVideo, 2)"
  by (simp add: Let_def isMarker_def complete_def emptyVideo_def string_eval)

lemma second_marker:
  "\<not> complete cur \<Longrightarrow> step_line (vs, cur, 2) (ascii ''Video 2'') = (vs, cur, 3)"
  by (simp add: Let_def isMarker_def string_eval)

lemma split_nl_labelled:
  "10 \<notin> set a \<Longrightarrow> 10 \<notin> set b \<Longrightarrow> split_nl (a @ b @ 10 # c) = (a @ b) # split_nl c"
  using split_nl_append [of "a @ b" c] by simp

lemma split_nl_last: "10 \<notin> set a \<Longrightarrow> 10 \<notin> set b \<Longrightarrow> split_nl (a @ b) = [a @ b]"
  by (simp add: split_nl_no_newline)

text \<open>A block with a title and a channel and no URL gives no candidate, and a following
  block with all four labelled lines is returned with its own four values.\<close>

lemma no_url_block_then_full_block:
  assumes "clean_value t1" and "clean_value c1"
    and "clean_value t2" and "clean_value c2" and "clean_value u2" and "clean_value d2"
  shows "parseVideoResponse
           (ascii ''Video 1'' @ 10 # ascii ''Title: '' @ t1 @ 10 # ascii ''Channel: '' @ c1 @ 10 #
            ascii ''Video 2'' @ 10 # ascii ''Title: '' @ t2 @ 10 # ascii ''Channel: '' @ c2 @ 10 #
            ascii ''URL: '' @ u2 @ 10 # ascii ''Description: '' @ d2)
         = [\<lparr>title = Some t2, channel = Some c2, url = Some u2, description = Some d2,
             id_no = 1\<rparr>]"
proof -
  have nl: "10 \<notin> set t1" "10 \<notin> set c1" "10 \<notin> set t2" "10 \<notin> set c2" "10 \<notin> set u2"
    "10 \<notin> set d2"
    using assms by (simp_all add: clean_value_def)
  have lab: "10 \<notin> set (ascii ''Video 1'')" "10 \<notin> set (ascii ''Video 2'')"
    "10 \<notin> set (ascii ''Title: '')" "10 \<notin> set (ascii ''Channel: '')"
    "10 \<notin> set (ascii ''URL: '')" "10 \<notin> set (ascii ''Description: '')"
    by (simp_all add: ascii_def)
  have lines: "split_nl
           (ascii ''Video 1'' @ 10 # ascii ''Title: '' @ t1 @ 10 # ascii ''Channel: '' @ c1 @ 10 #
            ascii ''Video 2'' @ 10 # ascii ''Title: '' @ t2 @ 10 # ascii ''Channel: '' @ c2 @ 10 #
            ascii ''URL: '' @ u2 @ 10 # ascii ''Description: '' @ d2)
      = [ascii ''Video 1'', ascii ''Title: '' @ t1, ascii ''Channel: '' @ c1, ascii ''Video 2'',
         ascii ''Title: '' @ t2, ascii ''Channel: '' @ c2, ascii ''URL: '' @ u2,
         ascii ''Description: '' @ d2]"
    by (simp only: split_nl_append split_nl_labelled split_nl_last nl lab simp_thms)
  have inc: "\<not> complete (emptyVideo\<lparr>title := Some t1, channel := Some c1\<rparr>)"
    by (simp add: complete_def emptyVideo_def)
  have "scan_lines [ascii ''Video 1'', ascii ''Title: '' @ t1, ascii ''Channel: '' @ c1,
         ascii ''Video 2'', ascii ''Title: '' @ t2, ascii ''Channel: '' @ c2,
         ascii ''URL: '' @ u2, ascii ''Description: '' @ d2]
      = ([], emptyVideo\<lparr>title := Some t2, channel := Some c2, url := Some u2,
                        description := Some d2\<rparr>, 3)"
    unfolding scan_lines_def
    by (simp add: first_marker title_line channel_line url_line description_line assms
          second_marker [OF inc] del: step_line.simps)
  moreover from assms have "t2 \<noteq> []" "u2 \<noteq> []" by (simp_all add: clean_value_def)
  ultimately show ?thesis
    by (simp add: parseVideoResponse_def lines complete_def with_id_def emptyVideo_def)
qed

text \<open>
  Claim C3 fails on the code. The first block below has a title and a channel and no URL;
  the second has a title and a URL and no channel. The first block gives no candidate of
  its own, but its channel survives the marker \<open>Video 2\<close> and is emitted as the channel
  of the second block's candidate.
\<close>

theorem marker_keeps_incomplete_accumulator:
  "parseVideoResponse no_url_then_no_channel_text =
     [\<lparr>title = Some (ascii ''C''), channel = Some (ascii ''B''), url = Some (ascii ''U''),
       description = None, id_no = 1\<rparr>]"
  by (simp add: no_url_then_no_channel_text_def parse_eval string_eval)

section \<open>analyzeVideoAndSuggest: the shape of the result\<close>

lemma length_resequence: "length (resequence k xs) = length xs"
  by (induction xs arbitrary: k) simp_all

lemma resequence_nth:
  "i < length xs \<Longrightarrow>
     resequence k xs ! i = AList.update K_id (JNum (int (k + i) + 1)) (spread (xs ! i))"
proof (induction xs arbitrary: k i)
  case Nil
  then show ?case by simp
next
  case (Cons a as)
  show ?case
  proof (cases i)
    case 0
    then show ?thesis by simp
  next
    case (Suc j)
    with Cons.prems have "j < length as" by simp
    from Cons.IH [OF this, of "Suc k"] Suc show ?thesis by simp
  qed
qed

lemma toString_digits: "set (toString n) \<subseteq> {48..57}"
proof (induction n rule: toString.induct)
  case (1 n)
  show ?case
  proof (cases "n < 10")
    case True
    then show ?thesis by (simp add: toString_small)
  next
    case False
    have "48 + n mod 10 \<le> 57" by arith
    with False 1 show ?thesis by (simp add: toString_large)
  qed
qed

lemma indexed_no_letter_key:
  assumes "c \<in> set k" and "57 < c"
  shows "map_of (indexed i xs) k = None"
proof -
  have neq: "toString j \<noteq> k" for j
  proof
    assume "toString j = k"
    with assms(1) toString_digits [of j] have "c \<le> 57" by auto
    with assms(2) show False by simp
  qed
  show ?thesis
    by (induction xs arbitrary: i) (simp_all add: neq neq [symmetric])
qed

lemma spread_member_of:
  assumes "c \<in> set k" and "57 < c"
  shows "map_of (spread a) k = member_of a k"
  by (cases a) (simp_all add: indexed_no_letter_key [OF assms])

lemma t_in_title: "116 \<in> set K_title" "116 \<in> set K_description"
  by (simp_all add: key_eval ascii_def)

lemma id_differs: "K_title \<noteq> K_id" "K_description \<noteq> K_id"
  by (simp_all add: key_eval ascii_def)

text \<open>
  Claim C7. For every parsed analysis object whose \<open>assessments\<close> member is an array,
  the call succeeds, the assessment at position \<open>i\<close> (from 0) gets id \<open>i + 1\<close> whatever
  id came in, and its \<open>title\<close> and \<open>description\<close> are those of the incoming element.
\<close>

theorem analyze_resequences_ids:
  assumes "map_of m K_assessments = Some (JArr xs)"
  shows "\<exists>r. analyzeVideoAndSuggest (Returns (JObj m)) = Inr r
           \<and> summary r = map_of m K_summary
           \<and> length (assessments r) = length xs
           \<and> (\<forall>i<length xs.
                 map_of (assessments r ! i) K_id = Some (JNum (int i + 1))
                 \<and> map_of (assessments r ! i) K_title = member_of (xs ! i) K_title
                 \<and> map_of (assessments r ! i) K_description = member_of (xs ! i) K_description)"
proof -
  have "analyzeVideoAndSuggest (Returns (JObj m)) =
          Inr \<lparr>summary = map_of m K_summary, assessments = resequence 0 xs\<rparr>"
    using assms by (simp add: analyzeVideoAndSuggest_def)
  moreover have "map_of (resequence 0 xs ! i) K_id = Some (JNum (int i + 1))"
    if "i < length xs" for i
    using that by (simp add: resequence_nth update_conv')
  moreover have "map_of (resequence 0 xs ! i) K_title = member_of (xs ! i) K_title"
    if "i < length xs" for i
    using that spread_member_of [OF t_in_title(1), of "xs ! i"]
    by (simp add: resequence_nth update_conv' id_differs)
  moreover have "map_of (resequence 0 xs ! i) K_description = member_of (xs ! i) K_description"
    if "i < length xs" for i
    using that spread_member_of [OF t_in_title(2), of "xs ! i"]
    by (simp add: resequence_nth update_conv' id_differs)
  ultimately show ?thesis
    by (simp add: length_resequence)
qed

theorem analyze_resequences_ids_witness:
  "map_of [(K_summary, JStr (ascii ''x'')),
           (K_assessments,
            JArr [JObj [(K_title, JStr (ascii ''a'')), (K_description, JStr (ascii ''b''))],
                  JObj [(K_title, JStr (ascii ''c'')), (K_description, JStr (ascii ''d''))]])]
     K_assessments
     = Some (JArr [JObj [(K_title, JStr (ascii ''a'')), (K_description, JStr (ascii ''b''))],
                   JObj [(K_title, JStr (ascii ''c'')), (K_description, JStr (ascii ''d''))]])
   \<and> (\<exists>r. analyzeVideoAndSuggest (Returns analysis_json) = Inr r
          \<and> map (\<lambda>a. map_of a K_id) (assessments r) = [Some (JNum 1), Some (JNum 2)]
          \<and> map (\<lambda>a. map_of a K_title) (assessments r)
              = [Some (JStr (ascii ''a'')), Some (JStr (ascii ''c''))]
          \<and> map (\<lambda>a. map_of a K_description) (assessments r)
              = [Some (JStr (ascii ''b'')), Some (JStr (ascii ''d''))])"
  using analyze_resequences_ids
    [of "[(K_summary, JStr (ascii ''x'')),
          (K_assessments,
           JArr [JObj [(K_title, JStr (ascii ''a'')), (K_description, JStr (ascii ''b''))],
                 JObj [(K_title, JStr (ascii ''c'')), (K_description, JStr (ascii ''d''))]])]"
        "[JObj [(K_title, JStr (ascii ''a'')), (K_description, JStr (ascii ''b''))],
          JObj [(K_title, JStr (ascii ''c'')), (K_description, JStr (ascii ''d''))]]"]
  by (simp add: analyzeVideoAndSuggest_def analysis_json_def key_eval ascii_def)

text \<open>
  Claim C5, as stated, fails: on the object \<open>{}\<close> the summary of the result is absent
  (\<open>undefined\<close>), not the empty string; and an \<open>assessments\<close> member that is a non-empty
  string, a truthy value that is not an array, makes the call fail.
\<close>

theorem analyze_empty_object_summary_absent:
  "analyzeVideoAndSuggest (Returns (JObj [])) \<noteq> Inr \<lparr>summary = Some (JStr []), assessments = []\<rparr>
   \<and> analyzeVideoAndSuggest (Returns (JObj [(K_assessments, JStr (ascii ''none''))])) = Inl ANALYZE_ERR"
  by (simp add: analyzeVideoAndSuggest_def key_eval ascii_def)

text \<open>
  Claim C5, amended. On the object \<open>{}\<close> the call succeeds and returns an absent summary
  and no assessments; for every parsed value other than \<open>null\<close> whose \<open>assessments\<close> is
  absent or falsy, the summary is passed through as it is (absent when absent) and the
  assessments are the empty sequence.
\<close>

theorem analyze_empty_object:
  "analyzeVideoAndSuggest (Returns (JObj [])) = Inr \<lparr>summary = None, assessments = []\<rparr>
   \<and> (data \<noteq> JNull
        \<and> (case member_of data K_assessments of None \<Rightarrow> True | Some v \<Rightarrow> \<not> truthy v) \<longrightarrow>
      analyzeVideoAndSuggest (Returns data) =
        Inr \<lparr>summary = member_of data K_summary, assessments = []\<rparr>)"
  by (auto simp: analyzeVideoAndSuggest_def split: option.splits)

theorem analyze_empty_object_witness:
  "JObj [(K_summary, JStr (ascii ''x'')), (K_assessments, JNull)] \<noteq> JNull
   \<and> analyzeVideoAndSuggest (Returns (JObj [(K_summary, JStr (ascii ''x'')), (K_assessments, JNull)]))
      = Inr \<lparr>summary = Some (JStr (ascii ''x'')), assessments = []\<rparr>"
  using analyze_empty_object [of "JObj [(K_summary, JStr (ascii ''x'')), (K_assessments, JNull)]"]
  by (simp add: key_eval ascii_def)

section \<open>generateLessonPlan\<close>

text \<open>
  Claim C9. When the call succeeds with an empty text (or with none), \<open>generateLessonPlan\<close>
  returns the fallback literal, which is not empty; so no document returned on success is
  the empty string.
\<close>

theorem generateLessonPlan_never_empty:
  "generateLessonPlan (Returns (Some [])) = Inr PLAN_FALLBACK
   \<and> generateLessonPlan (Returns None) = Inr PLAN_FALLBACK
   \<and> PLAN_FALLBACK \<noteq> []
   \<and> (generateLessonPlan response = Inr document \<longrightarrow> document \<noteq> [])"
  by (auto simp: generateLessonPlan_def PLAN_FALLBACK_def split: outcome.splits option.splits if_splits)

theorem generateLessonPlan_never_empty_witness:
  "generateLessonPlan (Returns (Some [])) = Inr PLAN_FALLBACK \<and> PLAN_FALLBACK \<noteq> []"
  using generateLessonPlan_never_empty [of "Returns (Some [])" PLAN_FALLBACK] by simp

section \<open>The step flow\<close>

text \<open>
  Claim C8. On every step other than \<open>INPUT_TOPIC\<close>, \<open>goBack\<close> lowers the step by one,
  clears the error and changes nothing else. After \<open>handleVideoSelect\<close> has succeeded from
  \<open>SELECT_VIDEO\<close>, \<open>goBack\<close> gives the state before the request with the error cleared
  and the fetched summary and assessments kept: the step is \<open>SELECT_VIDEO\<close> again and the
  candidates are the same list; \<open>goBack\<close> takes no outcome of a request.
\<close>

theorem goBack_keeps_data:
  "(step s \<noteq> INPUT_TOPIC \<longrightarrow>
      goBack s = s\<lparr>error := None, step := step s - 1\<rparr> \<and> Suc (step (goBack s)) = step s)
   \<and> (step s = SELECT_VIDEO \<and> selectedVideo s \<noteq> None
        \<and> analyzeVideoAndSuggest parsed = Inr result \<longrightarrow>
      goBack (handleVideoSelect parsed s) =
        s\<lparr>error := None, videoSummary := summary result,
           assessments_s := assessments result, isLoading := False\<rparr>)"
  by (auto simp: goBack_def handleVideoSelect_def Let_def)

theorem goBack_keeps_data_witness:
  "step (initialState\<lparr>step := SELECT_VIDEO, videos := [video_C], selectedVideo := Some video_C\<rparr>) \<noteq> INPUT_TOPIC
   \<and> goBack (handleVideoSelect (Returns analysis_json)
        (initialState\<lparr>step := SELECT_VIDEO, videos := [video_C], selectedVideo := Some video_C\<rparr>))
     = initialState\<lparr>step := SELECT_VIDEO, videos := [video_C], selectedVideo := Some video_C,
         videoSummary := Some (JStr (ascii ''x'')),
         assessments_s := [[(K_title, JStr (ascii ''a'')), (K_description, JStr (ascii ''b'')), (K_id, JNum 1)],
             [(K_title, JStr (ascii ''c'')), (K_description, JStr (ascii ''d'')), (K_id, JNum 2)]]\<rparr>"
  using goBack_keeps_data [of "initialState\<lparr>step := SELECT_VIDEO, videos := [video_C], selectedVideo := Some video_C\<rparr>"
     "Returns analysis_json" "\<lparr>summary = Some (JStr (ascii ''x'')),
          assessments =
            [[(K_title, JStr (ascii ''a'')), (K_description, JStr (ascii ''b'')), (K_id, JNum 1)],
             [(K_title, JStr (ascii ''c'')), (K_description, JStr (ascii ''d'')), (K_id, JNum 2)]]\<rparr>"]
  by (simp add: analysis_json_result initialState_def)

text \<open>
  Claim C10. On \<open>INPUT_TOPIC\<close>, \<open>goBack\<close> leaves the step as it is, clears the error and
  changes no other field.
\<close>

theorem goBack_on_InputTopic:
  "step s = INPUT_TOPIC \<Longrightarrow> goBack s = s\<lparr>error := None\<rparr> \<and> step (goBack s) = INPUT_TOPIC"
  by (simp add: goBack_def)

theorem goBack_on_InputTopic_witness:
  "step (initialState\<lparr>error := Some MSG_SEARCH\<rparr>) = INPUT_TOPIC
   \<and> goBack (initialState\<lparr>error := Some MSG_SEARCH\<rparr>) = initialState"
  using goBack_on_InputTopic [of "initialState\<lparr>error := Some MSG_SEARCH\<rparr>"]
  by (simp add: initialState_def)

subsection \<open>Sessions\<close>

text \<open>What \<open>resetApp\<close> leaves when the dialog is confirmed.\<close>

lemma resetApp_confirmed:
  "resetApp True s = initialState\<lparr>isLoading := isLoading s, videoSummary := videoSummary s\<rparr>"
  by (simp add: resetApp_def initialState_def)

text \<open>A plan is there on the last step only, in every session: the page of the last
  step has no back button.\<close>

lemma fire_plan_ok:
  assumes "offered s e" and "plan_ok s"
  shows "plan_ok (fire e s)"
  using assms
  by (cases e)
    (auto simp: plan_ok_def handleTopicSubmit_def handleVideoSelect_def
       handleAssessmentSelect_def resetApp_def goBack_def Let_def
       split: sum.splits option.splits if_splits)

lemma run_plan_ok:
  "run es s = Some s' \<Longrightarrow> plan_ok s \<Longrightarrow> plan_ok s'"
proof (induction es arbitrary: s)
  case Nil
  then show ?case by simp
next
  case (Cons e es)
  from Cons.prems(1) have off: "offered s e" and rest: "run es (fire e s) = Some s'"
    by (simp_all split: if_splits)
  from fire_plan_ok [OF off Cons.prems(2)] rest show ?case by (rule Cons.IH [rotated])
qed

lemma sessions_plan_ok:
  assumes "run es initialState = Some s"
  shows "lessonPlan s = [] \<or> step s = VIEW_PLAN"
  using run_plan_ok [OF assms] by (simp add: plan_ok_def initialState_def)

text \<open>The whole invariant holds in every session in which the user never goes back.\<close>

lemma fire_forward_ok:
  assumes "offered s e" and "forward_ok s" and "e \<noteq> GoBack"
  shows "forward_ok (fire e s)"
proof (cases e)
  case (SelectVideo v)
  with assms show ?thesis
    by (auto simp: forward_ok_def invariant_def selectedVideo_ok_def selectedAssessment_ok_def
          plan_ok_def list_ex_iff split: option.splits)
next
  case (SelectAssessment a)
  with assms show ?thesis
    by (auto simp: forward_ok_def invariant_def selectedVideo_ok_def selectedAssessment_ok_def
          plan_ok_def list_ex_iff split: option.splits)
next
  case (SubmitTopic r)
  with assms show ?thesis
    by (auto simp: forward_ok_def invariant_def selectedVideo_ok_def selectedAssessment_ok_def
          plan_ok_def handleTopicSubmit_def split: sum.splits option.splits)
next
  case (ConfirmVideo r)
  with assms show ?thesis
    by (auto simp: forward_ok_def invariant_def selectedVideo_ok_def selectedAssessment_ok_def
          plan_ok_def handleVideoSelect_def split: sum.splits option.splits)
next
  case (ConfirmAssessment r)
  with assms show ?thesis
    by (auto simp: forward_ok_def invariant_def selectedVideo_ok_def selectedAssessment_ok_def
          plan_ok_def handleAssessmentSelect_def split: sum.splits option.splits)
next
  case (Reset c)
  with assms show ?thesis
    by (auto simp: forward_ok_def invariant_def selectedVideo_ok_def selectedAssessment_ok_def
          plan_ok_def resetApp_def split: option.splits)
qed (use assms in \<open>auto simp: forward_ok_def invariant_def selectedVideo_ok_def
      selectedAssessment_ok_def plan_ok_def split: option.splits\<close>)

lemma run_forward_ok:
  "run es s = Some s' \<Longrightarrow> forward_ok s \<Longrightarrow> GoBack \<notin> set es \<Longrightarrow> forward_ok s'"
proof (induction es arbitrary: s)
  case Nil
  then show ?case by simp
next
  case (Cons e es)
  from Cons.prems(1) have off: "offered s e" and rest: "run es (fire e s) = Some s'"
    by (simp_all split: if_splits)
  from Cons.prems(3) have "e \<noteq> GoBack" and "GoBack \<notin> set es" by auto
  with fire_forward_ok [OF off Cons.prems(2)] rest Cons.IH show ?case by blast
qed

lemma sessions_without_goBack:
  assumes "run es initialState = Some s" and "GoBack \<notin> set es"
  shows "invariant s"
proof -
  have "forward_ok initialState"
    by (simp add: forward_ok_def invariant_def selectedVideo_ok_def selectedAssessment_ok_def
          plan_ok_def initialState_def)
  from run_forward_ok [OF assms(1) this assms(2)] show ?thesis
    by (simp add: forward_ok_def)
qed

text \<open>
  Claim C2 fails on the code: \<open>resetApp\<close> calls every setter but \<open>setVideoSummary\<close>.
  In the session below a topic is searched, the candidate is selected and analysed, and
  the reset is confirmed: the state is the initial one except for the summary of the
  analysis, which is still there.
\<close>

theorem resetApp_leaves_videoSummary:
  "run [SetTopic (ascii ''t''), SubmitTopic (Returns (Some one_video_text)),
        SelectVideo video_C, ConfirmVideo (Returns analysis_json), Reset True] initialState
     = Some (initialState\<lparr>videoSummary := Some (JStr (ascii ''x''))\<rparr>)
   \<and> initialState\<lparr>videoSummary := Some (JStr (ascii ''x''))\<rparr> \<noteq> initialState"
  by (simp add: flow_eval one_video_parsed analysis_json_result string_eval)

text \<open>
  Claim C1 fails on the code: \<open>handleTopicSubmit\<close> replaces \<open>videos\<close> and leaves
  \<open>selectedVideo\<close> as it is. In the session below the second of two candidates is
  selected, the user goes back and searches again, and the new search has one candidate:
  the state is on \<open>SELECT_VIDEO\<close> with candidate ids \<open>[1]\<close> and a selected video of id 2.
\<close>

theorem stale_selection_after_goBack:
  "map_option (\<lambda>s. (step s, map id_no (videos s), map_option id_no (selectedVideo s),
                     selectedVideo_ok s, invariant s))
     (run [SetTopic (ascii ''t''), SubmitTopic (Returns (Some two_videos_text)),
           SelectVideo video_B, GoBack, SubmitTopic (Returns (Some one_video_text))]
        initialState)
   = Some (SELECT_VIDEO, [1], Some 2, False, False)"
  by (simp add: flow_eval one_video_parsed two_videos_parsed string_eval
        invariant_def selectedVideo_ok_def video_A_def video_B_def video_C_def)

end
